theory Spec2Isabelle
  imports Complex_Main "HOL-Library.Word" "HOL-Library.Signed_Division"
begin

section \<open>The 100 prisoners simulation (100prisoners.c)\<close>

subsection \<open>Constants and the trial outcome\<close>

text \<open>The two macros of 100prisoners.c that the simulator reads.\<close>

definition DEFAULT_NUM_PRISONERS :: nat where
  "DEFAULT_NUM_PRISONERS = 100"

definition MAX_TRIALS :: nat where
  "MAX_TRIALS = 50"

definition EXIT_SUCCESS :: int where
  "EXIT_SUCCESS = 0"

definition EXIT_FAILURE :: int where
  "EXIT_FAILURE = 1"

text \<open>The least value of an \<open>int\<close> of C, 32 bits wide.\<close>

definition INT_MIN :: int where
  "INT_MIN = - (2 ^ 31)"

text \<open>\<open>enum found_t\<close>, the result of one trial.\<close>

datatype found_t = NOT_FOUND | FOUND

text \<open>
  Modelled from the spec: the enumerators of \<open>found_t\<close> are declared in 100prisoners.h,
  which is not among the sources. simulateAndStats adds the returned enumerator to its
  sum, and the spec's aggregator sums 1 for each Found outcome.
\<close>

definition found_value :: "found_t \<Rightarrow> int" where
  "found_value f = (case f of FOUND \<Rightarrow> 1 | NOT_FOUND \<Rightarrow> 0)"

subsection \<open>The disjoint-set structure\<close>

text \<open>
  Modelled from the spec: union-find/union-find.h (the type \<open>set_union\<close> and the
  functions set_union_init, find and union_set) is not among the sources. The spec gives
  the structure two sequences, parent and size, one entry per element.
\<close>

record set_union =
  parent :: "nat list"
  size_tab :: "nat list"

text \<open>
  Modelled from the spec: init(n) makes n singleton partitions, \<open>parent[i] = i\<close> and
  \<open>size[i] = 1\<close> for all i. The call \<open>set_union_init(s, n)\<close> overwrites the structure
  it is given.
\<close>

definition set_union_init :: "set_union \<Rightarrow> nat \<Rightarrow> set_union" where
  "set_union_init s n = \<lparr>parent = [0..<n], size_tab = replicate n 1\<rparr>"

text \<open>
  Modelled from the spec: find(i) follows parent links until a self-parent is reached,
  without path compression. \<open>None\<close> stands for a walk that gives no result: it leaves
  the arrays or it never reaches a root.
\<close>

partial_function (option) find_su :: "set_union \<Rightarrow> nat \<Rightarrow> nat option" where
  "find_su s i =
     (if i < length (parent s)
      then (if parent s ! i = i then Some i else find_su s (parent s ! i))
      else None)"

declare find_su.simps [code]

text \<open>
  Modelled from the spec: union(a, b) sets \<open>parent[find(a)] = find(b)\<close> (a's root goes
  under b's root, no balancing) and adds the size a's root had to the size of b's root.
  The spec's invariant on the structure is that \<open>size[root]\<close> is the number of elements
  whose root is that root; when a and b already have the same root there is nothing to
  link, and the invariant fixes that the sizes stay as they are.
\<close>

definition union_set :: "set_union \<Rightarrow> nat \<Rightarrow> nat \<Rightarrow> set_union option" where
  "union_set s a b =
     (case find_su s a of
        None \<Rightarrow> None
      | Some ra \<Rightarrow>
         (case find_su s b of
            None \<Rightarrow> None
          | Some rb \<Rightarrow>
              if ra = rb then Some s
              else if ra < length (size_tab s) \<and> rb < length (size_tab s)
              then Some (s\<lparr>parent := (parent s)[ra := rb],
                           size_tab := (size_tab s)[rb := size_tab s ! rb + size_tab s ! ra]\<rparr>)
              else None))"

subsection \<open>The random number generator\<close>

text \<open>
  The state of the C library's generator is the sequence of values that the coming calls
  of \<open>random()\<close> return. A call returns the head and leaves the rest.
\<close>

type_synonym rng = "nat \<Rightarrow> nat"

definition random_c :: "rng \<Rightarrow> nat \<times> rng" where
  "random_c g = (g 0, \<lambda>k. g (Suc k))"

subsection \<open>One trial: randomizeArray\<close>

text \<open>
  The while loop of randomizeArray. The bound it compares with is the macro MAX_TRIALS,
  here the parameter \<open>maxTrials\<close>. The result is the outcome, the structure and the
  generator as the function leaves them; \<open>None\<close> when find or union_set give no result.
\<close>

function randomize_loop ::
  "nat \<Rightarrow> set_union \<Rightarrow> int \<Rightarrow> rng \<Rightarrow> (found_t \<times> set_union \<times> rng) option" where
  "randomize_loop maxTrials s currentIndex g =
     (if currentIndex > 0 then
        (case random_c g of
           (x, g') \<Rightarrow>
             (case union_set s (nat currentIndex) (nat (int x mod (currentIndex + 1))) of
                None \<Rightarrow> None
              | Some s' \<Rightarrow>
                 (case find_su s' (nat currentIndex) of
                    None \<Rightarrow> None
                  | Some r \<Rightarrow>
                      if r < length (size_tab s') then
                        (if size_tab s' ! r > maxTrials then Some (NOT_FOUND, s', g')
                         else randomize_loop maxTrials s' (currentIndex - 1) g')
                      else None)))
      else Some (FOUND, s, g))"
  by pat_completeness auto
termination
  by (relation "measure (\<lambda>(b, s, c, g). nat c)") auto

declare randomize_loop.simps [simp del]

text \<open>
  randomizeArray with its two macros as parameters: \<open>numPrisoners\<close> for
  DEFAULT_NUM_PRISONERS (the number of elements the structure is initialised with) and
  \<open>maxTrials\<close> for MAX_TRIALS. Its first statement, \<open>currentIndex = size - 1\<close>,
  overflows when \<open>size\<close> is the least int: the behaviour is undefined then, and the
  result is \<open>None\<close>.
\<close>

definition randomizeArray_with ::
  "nat \<Rightarrow> nat \<Rightarrow> set_union \<Rightarrow> int \<Rightarrow> rng \<Rightarrow> (found_t \<times> set_union \<times> rng) option" where
  "randomizeArray_with numPrisoners maxTrials s size_arg g =
     (if size_arg - 1 < INT_MIN then None
      else randomize_loop maxTrials (set_union_init s numPrisoners) (size_arg - 1) g)"

text \<open>randomizeArray as the program has it.\<close>

definition randomizeArray ::
  "set_union \<Rightarrow> int \<Rightarrow> rng \<Rightarrow> (found_t \<times> set_union \<times> rng) option" where
  "randomizeArray s size_arg g =
     randomizeArray_with DEFAULT_NUM_PRISONERS MAX_TRIALS s size_arg g"

definition runSimulation :: "set_union \<Rightarrow> rng \<Rightarrow> (found_t \<times> set_union \<times> rng) option" where
  "runSimulation s g = randomizeArray s (int DEFAULT_NUM_PRISONERS) g"

text \<open>
  The loop of randomizeArray without its bound check: the structure after the first k
  unions, each of the current index with the index drawn for it.
\<close>

fun unions_only :: "set_union \<Rightarrow> int \<Rightarrow> rng \<Rightarrow> nat \<Rightarrow> set_union option" where
  "unions_only s currentIndex g 0 = Some s"
| "unions_only s currentIndex g (Suc k) =
     (case union_set s (nat currentIndex) (nat (int (g 0) mod (currentIndex + 1))) of
        None \<Rightarrow> None
      | Some s' \<Rightarrow> unions_only s' (currentIndex - 1) (\<lambda>j. g (Suc j)) k)"

text \<open>
  Step k of the loop (counted from 0, so its current index is \<open>currentIndex - k\<close>)
  exceeds the bound: immediately after its union, the size of the current index's
  partition is greater than \<open>maxTrials\<close>.
\<close>

definition exceeds_at :: "nat \<Rightarrow> set_union \<Rightarrow> int \<Rightarrow> rng \<Rightarrow> nat \<Rightarrow> bool" where
  "exceeds_at maxTrials s currentIndex g k =
     (case unions_only s currentIndex g (Suc k) of
        None \<Rightarrow> False
      | Some s' \<Rightarrow>
         (case find_su s' (nat (currentIndex - int k)) of
            None \<Rightarrow> False
          | Some r \<Rightarrow> r < length (size_tab s') \<and> maxTrials < size_tab s' ! r))"

subsection \<open>The process: entropy, output, results\<close>

text \<open>What one call of seed finds when it opens /dev/urandom and reads a word from it.\<close>

datatype urandom_result = Cannot_open | Cannot_read | Seed_word "32 word"

text \<open>
  What the process does that can be observed, in order: the lines it prints and, to count
  them, the calls of srandom and of runSimulation. printStats prints its caller, n, the
  mean, the variance and the interval; splitSimulation its task name, task number plus
  one and number of simulations.
\<close>

datatype event =
    Perror string
  | Srandom "32 word"
  | Trial found_t
  | Usage
  | Announce string int int
  | Stats string int "real option" "real option" "(real \<times> real) option"
  | Child_exited int

text \<open>
  The state of the process and of what surrounds it. \<open>rng\<close> is the generator of
  random(); \<open>entropy\<close> gives what the coming calls of seed find in /dev/urandom and
  \<open>fork_results\<close> whether the coming calls of fork succeed, first call first;
  \<open>libc_atoi\<close> and \<open>libc_srandom\<close> are the C library's atoi and the generator
  that srandom sets up from a seed.
\<close>

record world =
  rng :: rng
  entropy :: "nat \<Rightarrow> urandom_result"
  fork_results :: "nat \<Rightarrow> bool"
  libc_atoi :: "string \<Rightarrow> int"
  libc_srandom :: "32 word \<Rightarrow> rng"
  trace :: "event list"

text \<open>
  A call returns a value, or the process ends in \<open>exit\<close> with a status, or the
  behaviour is undefined in C.
\<close>

datatype 'a result = Return 'a world | Exit int world | Undefined

fun bind_result :: "'a result \<Rightarrow> ('a \<Rightarrow> world \<Rightarrow> 'b result) \<Rightarrow> 'b result" where
  "bind_result (Return x w) f = f x w"
| "bind_result (Exit c w) f = Exit c w"
| "bind_result Undefined f = Undefined"

definition emit :: "event \<Rightarrow> world \<Rightarrow> world" where
  "emit e w = w\<lparr>trace := trace w @ [e]\<rparr>"

definition count_trials :: "event list \<Rightarrow> nat" where
  "count_trials es = length (filter (\<lambda>e. case e of Trial f \<Rightarrow> True | _ \<Rightarrow> False) es)"

definition count_seedings :: "event list \<Rightarrow> nat" where
  "count_seedings es = length (filter (\<lambda>e. case e of Srandom v \<Rightarrow> True | _ \<Rightarrow> False) es)"

subsection \<open>seed\<close>

definition seed :: "world \<Rightarrow> unit result" where
  "seed w =
     (case entropy w 0 of
        Cannot_open \<Rightarrow>
          Exit EXIT_FAILURE
            (emit (Perror ''Couldn't open urandom file'') (w\<lparr>entropy := \<lambda>k. entropy w (Suc k)\<rparr>))
      | Cannot_read \<Rightarrow>
          Exit EXIT_FAILURE
            (emit (Perror ''Couldn't read urandom file'') (w\<lparr>entropy := \<lambda>k. entropy w (Suc k)\<rparr>))
      | Seed_word seedVal \<Rightarrow>
          Return ()
            (emit (Srandom seedVal)
               (w\<lparr>entropy := \<lambda>k. entropy w (Suc k), rng := libc_srandom w seedVal\<rparr>)))"

subsection \<open>simulateAndStats\<close>

text \<open>
  The for loop of simulateAndStats, from \<open>i\<close> on. The structure \<open>s\<close> is the one
  local variable that every call of runSimulation gets.
\<close>

function simulate_loop :: "int \<Rightarrow> int \<Rightarrow> int \<Rightarrow> set_union \<Rightarrow> world \<Rightarrow> int result" where
  "simulate_loop n i sum_v s w =
     (if i < n then
        (case runSimulation s (rng w) of
           None \<Rightarrow> Undefined
         | Some (f, s', g') \<Rightarrow>
             simulate_loop n (i + 1) (sum_v + found_value f) s' (emit (Trial f) (w\<lparr>rng := g'\<rparr>)))
      else Return sum_v w)"
  by pat_completeness auto
termination
  by (relation "measure (\<lambda>(n, i, v, s, w). nat (n - i))") auto

declare simulate_loop.simps [simp del]

text \<open>
  \<open>set_union s;\<close> is declared without a value; set_union_init overwrites it before
  anything reads it. The parameter \<open>caller\<close> is read under \<open>DEBUG == 1\<close> only, and
  DEBUG is 0.
\<close>

definition simulateAndStats :: "int \<Rightarrow> string \<Rightarrow> world \<Rightarrow> int result" where
  "simulateAndStats n caller w =
     bind_result (seed w)
       (\<lambda>_ w'. simulate_loop n 0 0 \<lparr>parent = [], size_tab = []\<rparr> w')"

subsection \<open>printStats and printUsage\<close>

text \<open>
  The values printStats computes. Its doubles are modelled by real numbers, computed
  exactly; \<open>None\<close> where the double is not a finite number (a division by zero, the
  square root of a negative number) and where \<open>n - 1\<close> overflows.
\<close>

definition stats_mean :: "int \<Rightarrow> int \<Rightarrow> real option" where
  "stats_mean sum_v n = (if n = 0 then None else Some (of_int sum_v / (of_int n + 0.0)))"

definition stats_var :: "int \<Rightarrow> int \<Rightarrow> real option" where
  "stats_var sum_v n =
     (case stats_mean sum_v n of
        None \<Rightarrow> None
      | Some mean \<Rightarrow>
          if n - 1 < INT_MIN \<or> n - 1 = 0 then None
          else Some ((of_int sum_v * (1 - mean)) / of_int (n - 1)))"

definition stats_ci :: "int \<Rightarrow> int \<Rightarrow> (real \<times> real) option" where
  "stats_ci sum_v n =
     (case (stats_mean sum_v n, stats_var sum_v n) of
        (Some mean, Some var) \<Rightarrow>
          if var / of_int n < 0 then None
          else Some (mean - 1.96 * sqrt (var / of_int n), mean + 1.96 * sqrt (var / of_int n))
      | _ \<Rightarrow> None)"

definition printStats :: "int \<Rightarrow> int \<Rightarrow> string \<Rightarrow> world \<Rightarrow> world" where
  "printStats sum_v n caller w =
     emit (Stats caller n (stats_mean sum_v n) (stats_var sum_v n) (stats_ci sum_v n)) w"

definition printUsage :: "world \<Rightarrow> world" where
  "printUsage w = emit Usage w"

subsection \<open>Workers: splitSimulation, threads, processes\<close>

text \<open>
  \<open>struct simParam\<close>, as its uses in 100prisoners.c show it (its declaration is in
  100prisoners.h). The field \<open>successes\<close> points to the array that the workers share;
  the model passes that array along.
\<close>

record simParam =
  taskName :: string
  taskNum :: nat
  numSimulations :: int

function decimal :: "nat \<Rightarrow> string" where
  "decimal n =
     (if n < 10 then [char_of (48 + n)] else decimal (n div 10) @ [char_of (48 + n mod 10)])"
  by pat_completeness auto
termination
  by (relation "measure (\<lambda>n. n)") auto

declare decimal.simps [simp del]

text \<open>
  The label \<open>"%s %d"\<close> that splitSimulation passes on as caller. snprintf writes
  at most one character less than the size of the buffer it is given: the buffer of 20
  bytes, or a second one of as many bytes as the label has characters when these are
  more than 20.
\<close>

definition nameAndNum :: "simParam \<Rightarrow> string" where
  "nameAndNum p =
     (let label = taskName p @ '' '' @ decimal (taskNum p + 1);
          idealBufSize = int (length label)
      in if idealBufSize > 20 then take (nat (idealBufSize - 1)) label else take 19 label)"

definition splitSimulation :: "simParam \<Rightarrow> int list \<Rightarrow> world \<Rightarrow> (int list) result" where
  "splitSimulation p successes w =
     bind_result
       (simulateAndStats (numSimulations p) (nameAndNum p)
          (emit (Announce (taskName p) (int (taskNum p) + 1) (numSimulations p)) w))
       (\<lambda>sum_v w'.
          if taskNum p < length successes then Return (successes[taskNum p := sum_v]) w'
          else Undefined)"

text \<open>The parameters the loops over the workers set up, one struct per worker.\<close>

definition listOfParam :: "string \<Rightarrow> int \<Rightarrow> int \<Rightarrow> simParam list" where
  "listOfParam name n numWorkers =
     map (\<lambda>i. \<lparr>taskName = name, taskNum = i, numSimulations = n sdiv numWorkers\<rparr>)
       [0..<nat numWorkers]"

text \<open>
  The threads, in the schedule in which each thread runs to its end as soon as it is
  created. They share the whole state of the process, and \<open>exit\<close> in one of them ends
  the process.
\<close>

fun run_threads :: "simParam list \<Rightarrow> int list \<Rightarrow> world \<Rightarrow> (int list) result" where
  "run_threads [] successes w = Return successes w"
| "run_threads (p # ps) successes w =
     bind_result (splitSimulation p successes w) (run_threads ps)"

text \<open>
  The arrays of \<open>numThreads\<close> elements are variable-length arrays, and the division is
  by \<open>numThreads\<close>: a count that is not positive is undefined behaviour.
\<close>

definition simulateAndStatsWithThreads :: "int \<Rightarrow> int \<Rightarrow> world \<Rightarrow> unit result" where
  "simulateAndStatsWithThreads n numThreads w =
     (if numThreads \<le> 0 then Undefined
      else
        bind_result
          (run_threads (listOfParam ''Thread'' n numThreads) (replicate (nat numThreads) 0) w)
          (\<lambda>successes w'.
             Return ()
               (printStats (sum_list successes) ((n sdiv numThreads) * numThreads)
                  ''All threads'' w')))"

definition fork_c :: "world \<Rightarrow> bool \<times> world" where
  "fork_c w = (fork_results w 0, w\<lparr>fork_results := \<lambda>k. fork_results w (Suc k)\<rparr>)"

text \<open>
  What the parent keeps when a child has ended: its own memory, and what the processes
  share, the entropy source and the output.
\<close>

definition after_child :: "world \<Rightarrow> world \<Rightarrow> world" where
  "after_child w child = w\<lparr>entropy := entropy child, trace := trace child\<rparr>"

text \<open>
  The processes, in the schedule in which each child runs to its end as soon as it is
  forked. A child starts as a copy of the parent and writes its slot of the shared
  array; a child that exits in seed leaves its slot as it was.
\<close>

fun run_processes :: "simParam list \<Rightarrow> int list \<Rightarrow> world \<Rightarrow> (int list) result" where
  "run_processes [] successes w = Return successes w"
| "run_processes (p # ps) successes w =
     (case fork_c w of
        (False, w1) \<Rightarrow> Exit EXIT_FAILURE (emit (Perror ''fork failed'') w1)
      | (True, w1) \<Rightarrow>
          (case splitSimulation p successes w1 of
             Undefined \<Rightarrow> Undefined
           | Return successes' wc \<Rightarrow>
               run_processes ps successes' (after_child w1 (emit (Child_exited EXIT_SUCCESS) wc))
           | Exit c wc \<Rightarrow>
               run_processes ps successes (after_child w1 (emit (Child_exited c) wc))))"

definition simulateAndStatsWithProcesses :: "int \<Rightarrow> int \<Rightarrow> world \<Rightarrow> unit result" where
  "simulateAndStatsWithProcesses n numProcesses w =
     (if numProcesses \<le> 0 then Undefined
      else
        bind_result
          (run_processes (listOfParam ''Process'' n numProcesses)
             (replicate (nat numProcesses) 0) w)
          (\<lambda>successes w'.
             Return ()
               (printStats (sum_list successes) ((n sdiv numProcesses) * numProcesses)
                  ''All processes'' w')))"

subsection \<open>main\<close>

text \<open>\<open>*argv[2]\<close>: the first character of the argument, the terminating 0 if it is empty.\<close>

definition first_char :: "string \<Rightarrow> char" where
  "first_char a = (case a of [] \<Rightarrow> CHR 0x00 | c # _ \<Rightarrow> c)"

definition main :: "string list \<Rightarrow> world \<Rightarrow> int result" where
  "main argv w =
     (if length argv = 3 then
        (let inputNumSimulations = libc_atoi w (argv ! 1) in
         if first_char (argv ! 2) = CHR ''s'' then
           bind_result
             (simulateAndStats inputNumSimulations ''Sequence (Single Thread / Process)'' w)
             (\<lambda>sum_v w'.
                Return EXIT_SUCCESS
                  (printStats sum_v inputNumSimulations
                     ''Sequence (Single Thread / Process)'' w'))
         else Return EXIT_SUCCESS (printUsage w))
      else if length argv = 4 then
        (let inputNumSimulations = libc_atoi w (argv ! 1) in
         if first_char (argv ! 2) = CHR ''p'' then
           bind_result
             (simulateAndStatsWithProcesses inputNumSimulations (libc_atoi w (argv ! 3)) w)
             (\<lambda>_ w'. Return EXIT_SUCCESS w')
         else if first_char (argv ! 2) = CHR ''t'' then
           bind_result
             (simulateAndStatsWithThreads inputNumSimulations (libc_atoi w (argv ! 3)) w)
             (\<lambda>_ w'. Return EXIT_SUCCESS w')
         else Return EXIT_SUCCESS (printUsage w))
      else Return EXIT_SUCCESS (printUsage w))"

text \<open>
  The three forms of the command line as the specification lists them: the program's
  name, the number of simulations and the mode \<open>s\<close>, or the mode \<open>t\<close> or \<open>p\<close> and a
  number of workers.
\<close>

definition accepted_form :: "string list \<Rightarrow> bool" where
  "accepted_form argv \<longleftrightarrow>
     (length argv = 3 \<and> argv ! 2 = ''s'') \<or>
     (length argv = 4 \<and> (argv ! 2 = ''t'' \<or> argv ! 2 = ''p''))"

text \<open>What main itself tests: the count, and the first character of the mode.\<close>

definition main_accepts :: "string list \<Rightarrow> bool" where
  "main_accepts argv \<longleftrightarrow>
     (length argv = 3 \<and> first_char (argv ! 2) = CHR ''s'') \<or>
     (length argv = 4 \<and>
        (first_char (argv ! 2) = CHR ''p'' \<or> first_char (argv ! 2) = CHR ''t''))"

subsection \<open>Describing runs\<close>

text \<open>The output of a call, whether it returns or exits.\<close>

definition result_trace :: "'a result \<Rightarrow> event list" where
  "result_trace r =
     (case r of Return x w \<Rightarrow> trace w | Exit c w \<Rightarrow> trace w | Undefined \<Rightarrow> [])"

text \<open>
  What workers \<open>i\<close>, \<open>i + 1\<close>, ... print and do when each is told to run \<open>q\<close>
  simulations, is seeded with the word \<open>v\<close> and gets the outcomes \<open>outs\<close> from its
  trials; \<open>fin\<close> is what ends a worker (the exit of a child process).
\<close>

fun worker_events ::
  "string \<Rightarrow> int \<Rightarrow> event list \<Rightarrow> nat \<Rightarrow> (32 word \<times> found_t list) list \<Rightarrow> event list" where
  "worker_events name q fin i [] = []"
| "worker_events name q fin i ((v, outs) # xs) =
     Announce name (int i + 1) q # Srandom v # map Trial outs @ fin @
     worker_events name q fin (Suc i) xs"

text \<open>The parameters of the \<open>k\<close> workers from number \<open>i\<close> on.\<close>

definition params_from :: "string \<Rightarrow> int \<Rightarrow> nat \<Rightarrow> nat \<Rightarrow> simParam list" where
  "params_from name q i k =
     map (\<lambda>i. \<lparr>taskName = name, taskNum = i, numSimulations = q\<rparr>) [i..<i + k]"

text \<open>
  An environment for examples: every call of seed finds \<open>u\<close> in /dev/urandom, every
  fork succeeds, atoi reads the argument \<open>1\<close> as 1 and any other as 0, and every seed
  sets up the generator that returns 0 forever.
\<close>

definition sample_world :: "urandom_result \<Rightarrow> world" where
  "sample_world u =
     \<lparr>rng = \<lambda>k. 0, entropy = \<lambda>k. u, fork_results = \<lambda>k. True,
      libc_atoi = \<lambda>a. if a = ''1'' then 1 else 0, libc_srandom = \<lambda>v k. 0, trace = []\<rparr>"

subsection \<open>Trials of 100 prisoners with the bound 50\<close>

text \<open>
  One trial of 100 prisoners with the bound 50 on the draws \<open>g\<close>, told without the
  loop of randomizeArray: a fresh structure of 100 elements and the 99 steps for the
  indices 99 down to 1. The outcome is NOT_FOUND when some step leaves the partition of
  its index with more than 50 elements, and the draws taken are those up to the first
  such step; otherwise the outcome is FOUND and all 99 draws are taken.
\<close>

definition trial_100_50 :: "rng \<Rightarrow> found_t \<times> rng" where
  "trial_100_50 g =
     (case List.find (exceeds_at 50 (set_union_init \<lparr>parent = [], size_tab = []\<rparr> 100) 99 g)
             [0..<99] of
        Some k \<Rightarrow> (NOT_FOUND, \<lambda>j. g (Suc k + j))
      | None \<Rightarrow> (FOUND, \<lambda>j. g (99 + j)))"

text \<open>
  A sequence of events is explained by such trials: read from the left with the
  generator \<open>cur\<close>, a call of srandom with the word \<open>v\<close> sets the generator to
  \<open>sr v\<close>, every trial has the outcome of a trial of 100 prisoners with the bound 50
  on the generator and leaves the generator that trial leaves, and no other event
  touches the generator.
\<close>

fun explained :: "(32 word \<Rightarrow> rng) \<Rightarrow> rng \<Rightarrow> event list \<Rightarrow> bool" where
  "explained sr cur [] = True"
| "explained sr cur (Srandom v # es) = explained sr (sr v) es"
| "explained sr cur (Trial f # es) =
     (f = fst (trial_100_50 cur) \<and> explained sr (snd (trial_100_50 cur)) es)"
| "explained sr cur (e # es) = explained sr cur es"

text \<open>The generator after a sequence of events, read in the same way.\<close>

fun generator_after :: "(32 word \<Rightarrow> rng) \<Rightarrow> rng \<Rightarrow> event list \<Rightarrow> rng" where
  "generator_after sr cur [] = cur"
| "generator_after sr cur (Srandom v # es) = generator_after sr (sr v) es"
| "generator_after sr cur (Trial f # es) = generator_after sr (snd (trial_100_50 cur)) es"
| "generator_after sr cur (e # es) = generator_after sr cur es"

text \<open>
  A step from the world \<open>w\<close> to the world \<open>w'\<close> keeps the C library and adds
  events that are explained whatever the generator was before them; a result is
  explained when the world it ends in is reached by such a step.
\<close>

definition adds_explained :: "world \<Rightarrow> world \<Rightarrow> bool" where
  "adds_explained w w' \<longleftrightarrow>
     libc_srandom w' = libc_srandom w \<and>
     (\<exists>new. trace w' = trace w @ new \<and> (\<forall>cur. explained (libc_srandom w) cur new))"

definition result_explained :: "world \<Rightarrow> 'a result \<Rightarrow> bool" where
  "result_explained w r =
     (case r of
        Return x w' \<Rightarrow> adds_explained w w'
      | Exit c w' \<Rightarrow> adds_explained w w'
      | Undefined \<Rightarrow> True)"

subsection \<open>Invariants of the loop of randomizeArray\<close>

text \<open>Every index up to \<open>c\<close> is its own parent, and both arrays reach beyond \<open>c\<close>.\<close>

definition roots_below :: "set_union \<Rightarrow> nat \<Rightarrow> bool" where
  "roots_below s c \<longleftrightarrow>
     c < length (parent s) \<and> length (size_tab s) = length (parent s) \<and>
     (\<forall>i\<le>c. parent s ! i = i)"

text \<open>The sizes recorded at the indices up to \<open>c\<close> add up to at most \<open>n\<close>.\<close>

definition sizes_within :: "set_union \<Rightarrow> nat \<Rightarrow> nat \<Rightarrow> bool" where
  "sizes_within s c n \<longleftrightarrow> (\<Sum>i\<le>c. size_tab s ! i) \<le> n"

section \<open>Properties of the loop of randomizeArray\<close>

lemma find_su_root: "i < length (parent s) \<Longrightarrow> parent s ! i = i \<Longrightarrow> find_su s i = Some i"
  by (subst find_su.simps) simp

lemma find_su_below: "roots_below s c \<Longrightarrow> i \<le> c \<Longrightarrow> find_su s i = Some i"
  by (rule find_su_root) (auto simp: roots_below_def)

lemma union_set_below:
  assumes "roots_below s c" "r \<le> c"
  shows "union_set s c r =
           Some (if r = c then s
                 else s\<lparr>parent := (parent s)[c := r],
                        size_tab := (size_tab s)[r := size_tab s ! r + size_tab s ! c]\<rparr>)"
  using assms find_su_below[OF assms(1), of c] find_su_below[OF assms(1) assms(2)]
  by (auto simp: union_set_def roots_below_def)

lemma union_set_keeps_roots:
  assumes "roots_below s c" "r \<le> c" "0 < c" "union_set s c r = Some s'"
  shows "roots_below s' (c - 1)"
  using assms union_set_below[OF assms(1,2)]
  by (auto simp: roots_below_def split: if_splits)

lemma union_set_find:
  assumes "roots_below s c" "r \<le> c" "union_set s c r = Some s'"
  shows "find_su s' c = Some r"
proof (cases "r = c")
  case True
  then show ?thesis using assms union_set_below[OF assms(1,2)] find_su_below[OF assms(1), of c] by simp
next
  case False
  have s': "s' = s\<lparr>parent := (parent s)[c := r],
                        size_tab := (size_tab s)[r := size_tab s ! r + size_tab s ! c]\<rparr>"
    using assms union_set_below[OF assms(1,2)] False by simp
  have "find_su s' r = Some r"
    by (rule find_su_root) (use assms False in \<open>auto simp: s' roots_below_def\<close>)
  moreover have "find_su s' c = find_su s' r"
    by (subst find_su.simps) (use assms False in \<open>auto simp: s' roots_below_def\<close>)
  ultimately show ?thesis by simp
qed

lemma sum_update_below:
  fixes xs :: "nat list"
  assumes "r \<le> m" "m < length xs"
  shows "(\<Sum>i\<le>m. xs[r := v] ! i) + xs ! r = (\<Sum>i\<le>m. xs ! i) + v"
proof -
  have fin: "finite {..m}" and mem: "r \<in> {..m}" using assms by auto
  have eq: "(\<Sum>i\<in>{..m} - {r}. xs[r := v] ! i) = (\<Sum>i\<in>{..m} - {r}. xs ! i)"
    by (rule sum.cong) auto
  have "(\<Sum>i\<le>m. xs[r := v] ! i) = xs[r := v] ! r + (\<Sum>i\<in>{..m} - {r}. xs[r := v] ! i)"
    by (rule sum.remove[OF fin mem])
  moreover have "(\<Sum>i\<le>m. xs ! i) = xs ! r + (\<Sum>i\<in>{..m} - {r}. xs ! i)"
    by (rule sum.remove[OF fin mem])
  ultimately show ?thesis using assms eq by simp
qed

lemma union_set_sizes:
  assumes rb: "roots_below s c" and r: "r \<le> c" and c: "0 < c"
    and u: "union_set s c r = Some s'" and sz: "sizes_within s c n"
  shows "sizes_within s' (c - 1) n \<and> size_tab s' ! r \<le> n"
proof -
  have split: "(\<Sum>i\<le>c. size_tab s ! i) = (\<Sum>i\<le>c - 1. size_tab s ! i) + size_tab s ! c"
    using c by (cases c) simp_all
  show ?thesis
  proof (cases "r = c")
    case True
    then have "s' = s" using u union_set_below[OF rb r] by simp
    then show ?thesis using sz split True by (simp add: sizes_within_def)
  next
    case False
    then have r': "r \<le> c - 1" using r by simp
    have len: "c - 1 < length (size_tab s)" using rb by (auto simp: roots_below_def)
    have s': "size_tab s' = (size_tab s)[r := size_tab s ! r + size_tab s ! c]"
      using u union_set_below[OF rb r] False by auto
    have total: "(\<Sum>i\<le>c - 1. size_tab s' ! i) = (\<Sum>i\<le>c. size_tab s ! i)"
      using sum_update_below[OF r' len, of "size_tab s ! r + size_tab s ! c"] split
      by (simp add: s')
    have "size_tab s' ! r \<le> (\<Sum>i\<le>c - 1. size_tab s' ! i)"
      using r' by (simp add: member_le_sum)
    then show ?thesis using sz total by (simp add: sizes_within_def)
  qed
qed

lemma randomize_loop_step:
  assumes rb: "roots_below s (nat c)" and c: "0 < c"
  shows "\<exists>s'. union_set s (nat c) (nat (int (g 0) mod (c + 1))) = Some s' \<and>
           randomize_loop b s c g =
             (if size_tab s' ! nat (int (g 0) mod (c + 1)) > b
              then Some (NOT_FOUND, s', \<lambda>k. g (Suc k))
              else randomize_loop b s' (c - 1) (\<lambda>k. g (Suc k)))"
proof -
  define r where "r = nat (int (g 0) mod (c + 1))"
  have "int (g 0) mod (c + 1) < c + 1" using c by (intro pos_mod_bound) simp
  then have r: "r \<le> nat c" using c by (simp add: r_def nat_le_iff)
  obtain s' where u: "union_set s (nat c) r = Some s'"
    using union_set_below[OF rb r] by blast
  have f: "find_su s' (nat c) = Some r" by (rule union_set_find[OF rb r u])
  have rb': "roots_below s' (nat c - 1)"
    using union_set_keeps_roots[OF rb r _ u] c by simp
  have len: "r < length (size_tab s')"
    using rb r u union_set_below[OF rb r] by (auto simp: roots_below_def split: if_splits)
  show ?thesis
    using u f len c by (subst randomize_loop.simps) (simp add: random_c_def r_def[symmetric])
qed

lemma draw_le: "0 < c \<Longrightarrow> nat (int x mod (c + 1)) \<le> nat c"
proof -
  assume c: "0 < c"
  have "int x mod (c + 1) < c + 1" using c by (intro pos_mod_bound) simp
  then show ?thesis using c by (simp add: nat_le_iff)
qed

lemma exceeds_at_0:
  assumes rb: "roots_below s (nat c)" and c: "0 < c"
    and u: "union_set s (nat c) (nat (int (g 0) mod (c + 1))) = Some s'"
  shows "exceeds_at b s c g 0 \<longleftrightarrow> b < size_tab s' ! nat (int (g 0) mod (c + 1))"
proof -
  have r: "nat (int (g 0) mod (c + 1)) \<le> nat c" by (rule draw_le[OF c])
  have f: "find_su s' (nat c) = Some (nat (int (g 0) mod (c + 1)))"
    by (rule union_set_find[OF rb r u])
  have len: "nat (int (g 0) mod (c + 1)) < length (size_tab s')"
    using rb r u union_set_below[OF rb r] by (auto simp: roots_below_def split: if_splits)
  show ?thesis using u f len by (simp add: exceeds_at_def)
qed

lemma exceeds_at_Suc:
  assumes u: "union_set s (nat c) (nat (int (g 0) mod (c + 1))) = Some s'"
  shows "exceeds_at b s c g (Suc k) = exceeds_at b s' (c - 1) (\<lambda>j. g (Suc j)) k"
proof -
  have h: "c - int (Suc k) = c - 1 - int k" by simp
  show ?thesis
    unfolding exceeds_at_def h unions_only.simps(2)[of s c g "Suc k"] u by simp
qed

lemma loop_not_found:
  "roots_below s (nat c) \<Longrightarrow> int k < c \<Longrightarrow> exceeds_at b s c g k \<Longrightarrow>
   (\<forall>j<k. \<not> exceeds_at b s c g j) \<Longrightarrow>
   \<exists>s'. unions_only s c g (Suc k) = Some s' \<and>
        randomize_loop b s c g = Some (NOT_FOUND, s', \<lambda>j. g (Suc k + j))"
proof (induction k arbitrary: s c g)
  case 0
  then have c: "0 < c" by simp
  obtain s' where u: "union_set s (nat c) (nat (int (g 0) mod (c + 1))) = Some s'"
    and l: "randomize_loop b s c g =
             (if size_tab s' ! nat (int (g 0) mod (c + 1)) > b
              then Some (NOT_FOUND, s', \<lambda>k. g (Suc k))
              else randomize_loop b s' (c - 1) (\<lambda>k. g (Suc k)))"
    using randomize_loop_step[where g=g and b=b, OF "0.prems"(1) c] by blast
  show ?case using u l "0.prems"(3) exceeds_at_0[where g=g and b=b, OF "0.prems"(1) c u] by simp
next
  case (Suc k)
  then have c: "0 < c" by simp
  obtain s' where u: "union_set s (nat c) (nat (int (g 0) mod (c + 1))) = Some s'"
    and l: "randomize_loop b s c g =
             (if size_tab s' ! nat (int (g 0) mod (c + 1)) > b
              then Some (NOT_FOUND, s', \<lambda>k. g (Suc k))
              else randomize_loop b s' (c - 1) (\<lambda>k. g (Suc k)))"
    using randomize_loop_step[where g=g and b=b, OF Suc.prems(1) c] by blast
  have no0: "\<not> b < size_tab s' ! nat (int (g 0) mod (c + 1))"
    using Suc.prems(4) exceeds_at_0[where g=g and b=b, OF Suc.prems(1) c u] by blast
  have rb': "roots_below s' (nat (c - 1))"
    using union_set_keeps_roots[OF Suc.prems(1) draw_le[OF c] _ u] c
    by (simp add: nat_diff_distrib)
  have ex': "exceeds_at b s' (c - 1) (\<lambda>j. g (Suc j)) k"
    using Suc.prems(3) exceeds_at_Suc[where g=g and b=b, OF u] by simp
  have none': "\<forall>j<k. \<not> exceeds_at b s' (c - 1) (\<lambda>j. g (Suc j)) j"
    using Suc.prems(4) exceeds_at_Suc[where g=g and b=b, OF u] by auto
  have "int k < c - 1" using Suc.prems(2) by simp
  from Suc.IH[OF rb' this ex' none'] show ?case using u l no0 by simp
qed

lemma loop_found:
  "roots_below s (nat c) \<Longrightarrow> nat c = m \<Longrightarrow> (\<forall>j<m. \<not> exceeds_at b s c g j) \<Longrightarrow>
   \<exists>s'. unions_only s c g m = Some s' \<and>
        randomize_loop b s c g = Some (FOUND, s', \<lambda>j. g (m + j))"
proof (induction m arbitrary: s c g)
  case 0
  then have "\<not> 0 < c" by simp
  then show ?case by (subst randomize_loop.simps) simp
next
  case (Suc m)
  then have c: "0 < c" by simp
  obtain s' where u: "union_set s (nat c) (nat (int (g 0) mod (c + 1))) = Some s'"
    and l: "randomize_loop b s c g =
             (if size_tab s' ! nat (int (g 0) mod (c + 1)) > b
              then Some (NOT_FOUND, s', \<lambda>k. g (Suc k))
              else randomize_loop b s' (c - 1) (\<lambda>k. g (Suc k)))"
    using randomize_loop_step[where g=g and b=b, OF Suc.prems(1) c] by blast
  have no0: "\<not> b < size_tab s' ! nat (int (g 0) mod (c + 1))"
    using Suc.prems(3) exceeds_at_0[where g=g and b=b, OF Suc.prems(1) c u] by blast
  have rb': "roots_below s' (nat (c - 1))"
    using union_set_keeps_roots[OF Suc.prems(1) draw_le[OF c] _ u] c
    by (simp add: nat_diff_distrib)
  have none': "\<forall>j<m. \<not> exceeds_at b s' (c - 1) (\<lambda>j. g (Suc j)) j"
    using Suc.prems(3) exceeds_at_Suc[where g=g and b=b, OF u] by auto
  have "nat (c - 1) = m" using Suc.prems(2) by simp
  from Suc.IH[OF rb' this none'] show ?case using u l no0 by simp
qed

lemma init_roots_below:
  assumes "1 \<le> n" "n \<le> int N"
  shows "roots_below (set_union_init s N) (nat (n - 1))"
  using assms by (auto simp: roots_below_def set_union_init_def)

lemma init_sizes_within:
  assumes "1 \<le> n" "n \<le> int N"
  shows "sizes_within (set_union_init s N) (nat (n - 1)) (nat n)"
proof -
  have "(\<Sum>i\<le>nat (n - 1). replicate N (1::nat) ! i) = (\<Sum>i\<le>nat (n - 1). 1)"
    by (rule sum.cong) (use assms in auto)
  then show ?thesis using assms by (simp add: sizes_within_def set_union_init_def)
qed

lemma loop_large_bound:
  "roots_below s (nat c) \<Longrightarrow> sizes_within s (nat c) n \<Longrightarrow> n \<le> b \<Longrightarrow> nat c = m \<Longrightarrow>
   \<exists>s'. randomize_loop b s c g = Some (FOUND, s', \<lambda>j. g (m + j))"
proof (induction m arbitrary: s c g)
  case 0
  then have "\<not> 0 < c" by simp
  then show ?case by (subst randomize_loop.simps) simp
next
  case (Suc m)
  then have c: "0 < c" by simp
  obtain s' where u: "union_set s (nat c) (nat (int (g 0) mod (c + 1))) = Some s'"
    and l: "randomize_loop b s c g =
             (if size_tab s' ! nat (int (g 0) mod (c + 1)) > b
              then Some (NOT_FOUND, s', \<lambda>k. g (Suc k))
              else randomize_loop b s' (c - 1) (\<lambda>k. g (Suc k)))"
    using randomize_loop_step[where g=g and b=b, OF Suc.prems(1) c] by blast
  have c': "0 < nat c" using c by simp
  have sz: "sizes_within s' (nat c - 1) n"
    and le: "size_tab s' ! nat (int (g 0) mod (c + 1)) \<le> n"
    using union_set_sizes[OF Suc.prems(1) draw_le[OF c] c' u Suc.prems(2)] by simp_all
  have rb': "roots_below s' (nat (c - 1))"
    using union_set_keeps_roots[OF Suc.prems(1) draw_le[OF c] c' u] c
    by (simp add: nat_diff_distrib)
  have sz': "sizes_within s' (nat (c - 1)) n" using sz c by (simp add: nat_diff_distrib)
  have "nat (c - 1) = m" using Suc.prems(4) by simp
  from Suc.IH[OF rb' sz' Suc.prems(3) this] show ?case using l le Suc.prems(3) by simp
qed

lemma loop_same_draws:
  "nat c = m \<Longrightarrow> (\<forall>k<m. g1 k = g2 k) \<Longrightarrow>
   map_option (\<lambda>(f, s', g'). (f, s')) (randomize_loop b s c g1) =
   map_option (\<lambda>(f, s', g'). (f, s')) (randomize_loop b s c g2)"
proof (induction m arbitrary: s c g1 g2)
  case 0
  then have "\<not> 0 < c" by simp
  then show ?case by (simp add: randomize_loop.simps[of b s c])
next
  case (Suc m)
  then have c: "0 < c" and g0: "g1 0 = g2 0" by auto
  have m: "nat (c - 1) = m" using Suc.prems(1) by simp
  have gs: "\<forall>k<m. (\<lambda>j. g1 (Suc j)) k = (\<lambda>j. g2 (Suc j)) k" using Suc.prems(2) by auto
  note IH = Suc.IH[OF m gs]
  show ?case
    using c g0 IH
    by (simp add: randomize_loop.simps[of b s c g1] randomize_loop.simps[of b s c g2]
          random_c_def split: option.splits)
qed

lemma randomize_loop_lengths:
  "roots_below s (nat c) \<Longrightarrow> nat c = m \<Longrightarrow>
   \<exists>f s' g'. randomize_loop b s c g = Some (f, s', g') \<and>
     length (parent s') = length (parent s) \<and> length (size_tab s') = length (size_tab s)"
proof (induction m arbitrary: s c g)
  case 0
  then have "\<not> 0 < c" by simp
  then show ?case by (subst randomize_loop.simps) simp
next
  case (Suc m)
  then have c: "0 < c" by simp
  obtain s' where u: "union_set s (nat c) (nat (int (g 0) mod (c + 1))) = Some s'"
    and l: "randomize_loop b s c g =
             (if size_tab s' ! nat (int (g 0) mod (c + 1)) > b
              then Some (NOT_FOUND, s', \<lambda>k. g (Suc k))
              else randomize_loop b s' (c - 1) (\<lambda>k. g (Suc k)))"
    using randomize_loop_step[where g=g and b=b, OF Suc.prems(1) c] by blast
  have c': "0 < nat c" using c by simp
  have lens: "length (parent s') = length (parent s) \<and> length (size_tab s') = length (size_tab s)"
    using u union_set_below[OF Suc.prems(1) draw_le[OF c]] by (auto split: if_splits)
  have rb': "roots_below s' (nat (c - 1))"
    using union_set_keeps_roots[OF Suc.prems(1) draw_le[OF c] c' u] c
    by (simp add: nat_diff_distrib)
  have "nat (c - 1) = m" using Suc.prems(2) by simp
  from Suc.IH[OF rb' this, of "\<lambda>k. g (Suc k)"] show ?case using l lens by auto
qed

lemma randomizeArray_with_loop:
  "INT_MIN < n \<Longrightarrow>
   randomizeArray_with N b s n g = randomize_loop b (set_union_init s N) (n - 1) g"
  by (simp add: randomizeArray_with_def)

lemma randomizeArray_with_pos:
  "1 \<le> n \<Longrightarrow>
   randomizeArray_with N b s n g = randomize_loop b (set_union_init s N) (n - 1) g"
  by (rule randomizeArray_with_loop) (simp add: INT_MIN_def)

lemma runSimulation_total: "\<exists>f s' g'. runSimulation s g = Some (f, s', g')"
proof -
  have n: "1 \<le> int DEFAULT_NUM_PRISONERS" by (simp add: DEFAULT_NUM_PRISONERS_def)
  have "roots_below (set_union_init s DEFAULT_NUM_PRISONERS) (nat (int DEFAULT_NUM_PRISONERS - 1))"
    by (rule init_roots_below) (simp_all add: DEFAULT_NUM_PRISONERS_def)
  from randomize_loop_lengths[OF this refl, of MAX_TRIALS g] show ?thesis
    by (auto simp: runSimulation_def randomizeArray_def randomizeArray_with_pos[OF n])
qed

lemma randomizeArray_lengths:
  assumes "sz \<le> int DEFAULT_NUM_PRISONERS" and low: "INT_MIN < sz"
  shows "\<exists>f s' g'. randomizeArray s sz g = Some (f, s', g') \<and>
     length (parent s') = DEFAULT_NUM_PRISONERS \<and> length (size_tab s') = DEFAULT_NUM_PRISONERS"
proof (cases "1 \<le> sz")
  case True
  have "roots_below (set_union_init s DEFAULT_NUM_PRISONERS) (nat (sz - 1))"
    by (rule init_roots_below[OF True assms(1)])
  from randomize_loop_lengths[OF this refl, of MAX_TRIALS g] show ?thesis
    by (simp add: randomizeArray_def randomizeArray_with_loop[OF low] set_union_init_def)
next
  case False
  then have "\<not> 0 < sz - 1" by simp
  then show ?thesis
    by (simp add: randomizeArray_def randomizeArray_with_loop[OF low] set_union_init_def
          randomize_loop.simps[of _ _ "sz - 1"])
qed

section \<open>The single-trial simulator\<close>

text \<open>
  In the theorems of this section the simulator is randomizeArray with its two macros as
  parameters, \<open>N\<close> elements in the structure and the bound \<open>b\<close>, run on \<open>n\<close>
  prisoners with \<open>n \<le> N\<close>; the program's randomizeArray is \<open>N = 100\<close>, \<open>b = 50\<close>.
\<close>

text \<open>
  C1. Run with prisoner count n and cycle bound b, the simulator returns NOT_FOUND
  exactly when some step of the loop exceeds the bound, that is, when immediately after
  the union of the step's current index with the index drawn for it the size of the
  current index's partition is greater than b. It then stops at the first such step:
  the structure it leaves is the one after that step's union and it has taken one draw
  per step so far. If no step exceeds the bound the loop runs through its n - 1 steps and
  the simulator returns FOUND.
\<close>

theorem randomizeArray_not_found_iff_exceeds:
  assumes "1 \<le> n" "n \<le> int N"
  shows "((\<exists>s' g'. randomizeArray_with N b s n g = Some (NOT_FOUND, s', g')) \<longleftrightarrow>
          (\<exists>k<nat (n - 1). exceeds_at b (set_union_init s N) (n - 1) g k))
       \<and> (\<forall>k<nat (n - 1).
             exceeds_at b (set_union_init s N) (n - 1) g k \<and>
             (\<forall>j<k. \<not> exceeds_at b (set_union_init s N) (n - 1) g j) \<longrightarrow>
             (\<exists>s'. unions_only (set_union_init s N) (n - 1) g (Suc k) = Some s' \<and>
                   randomizeArray_with N b s n g = Some (NOT_FOUND, s', \<lambda>j. g (Suc k + j))))
       \<and> ((\<forall>k<nat (n - 1). \<not> exceeds_at b (set_union_init s N) (n - 1) g k) \<longrightarrow>
             (\<exists>s'. unions_only (set_union_init s N) (n - 1) g (nat (n - 1)) = Some s' \<and>
                   randomizeArray_with N b s n g = Some (FOUND, s', \<lambda>j. g (nat (n - 1) + j))))"
proof -
  let ?t = "set_union_init s N"
  let ?E = "exceeds_at b ?t (n - 1) g"
  have rb: "roots_below ?t (nat (n - 1))" by (rule init_roots_below[OF assms])
  have first: "\<exists>s'. unions_only ?t (n - 1) g (Suc k) = Some s' \<and>
                   randomizeArray_with N b s n g = Some (NOT_FOUND, s', \<lambda>j. g (Suc k + j))"
    if "k < nat (n - 1)" "?E k" "\<forall>j<k. \<not> ?E j" for k
  proof -
    have "int k < n - 1" using that(1) by simp
    from loop_not_found[OF rb this that(2,3)] show ?thesis
      by (simp add: randomizeArray_with_pos[OF assms(1)])
  qed
  have none: "\<exists>s'. unions_only ?t (n - 1) g (nat (n - 1)) = Some s' \<and>
                   randomizeArray_with N b s n g = Some (FOUND, s', \<lambda>j. g (nat (n - 1) + j))"
    if "\<forall>k<nat (n - 1). \<not> ?E k"
    using loop_found[OF rb refl that] by (simp add: randomizeArray_with_pos[OF assms(1)])
  have iff: "(\<exists>s' g'. randomizeArray_with N b s n g = Some (NOT_FOUND, s', g')) \<longleftrightarrow>
          (\<exists>k<nat (n - 1). ?E k)"
  proof
    assume nf: "\<exists>s' g'. randomizeArray_with N b s n g = Some (NOT_FOUND, s', g')"
    show "\<exists>k<nat (n - 1). ?E k"
    proof (rule ccontr)
      assume "\<not> (\<exists>k<nat (n - 1). ?E k)"
      then have "\<forall>k<nat (n - 1). \<not> ?E k" by blast
      from none[OF this] nf show False by auto
    qed
  next
    assume "\<exists>k<nat (n - 1). ?E k"
    then obtain k where k: "k < nat (n - 1) \<and> ?E k" by blast
    define k0 where "k0 = (LEAST k. k < nat (n - 1) \<and> ?E k)"
    have k0: "k0 < nat (n - 1) \<and> ?E k0" unfolding k0_def by (rule LeastI[of _ k]) (rule k)
    have "\<forall>j<k0. \<not> ?E j"
    proof (intro allI impI)
      fix j assume "j < k0"
      then have "\<not> (j < nat (n - 1) \<and> ?E j)" unfolding k0_def by (rule not_less_Least)
      then show "\<not> ?E j" using \<open>j < k0\<close> k0 by simp
    qed
    then show "\<exists>s' g'. randomizeArray_with N b s n g = Some (NOT_FOUND, s', g')"
      using first[of k0] k0 by blast
  qed
  show ?thesis using iff first none by blast
qed

theorem randomizeArray_not_found_iff_exceeds_witness:
  "(1::int) \<le> 100 \<and> (100::int) \<le> int 100 \<and>
   exceeds_at 50 (set_union_init \<lparr>parent = [], size_tab = []\<rparr> 100) (100 - 1) (\<lambda>k. 0) 49 \<and>
   map_option fst (randomizeArray_with 100 50 \<lparr>parent = [], size_tab = []\<rparr> 100 (\<lambda>k. 0)) = Some NOT_FOUND"
proof -
  have e: "exceeds_at 50 (set_union_init \<lparr>parent = [], size_tab = []\<rparr> 100) (100 - 1) (\<lambda>k. 0) 49"
    by code_simp
  have "\<exists>k<nat (100 - 1). exceeds_at 50 (set_union_init \<lparr>parent = [], size_tab = []\<rparr> 100) (100 - 1) (\<lambda>k. 0) k"
    by (rule exI[of _ 49]) (use e in simp)
  then show ?thesis
    using e randomizeArray_not_found_iff_exceeds[of 100 100 50 "\<lparr>parent = [], size_tab = []\<rparr>" "\<lambda>k. 0"]
    by auto
qed

text \<open>
  C2. For every n \<ge> 1 and every bound b \<ge> n the simulator returns FOUND, whatever
  the draws are: no partition can grow beyond the n indices the loop touches. It takes
  n - 1 draws.
\<close>

theorem randomizeArray_found_when_bound_covers:
  assumes "1 \<le> n" "n \<le> int N" "n \<le> int b"
  shows "\<exists>s'. randomizeArray_with N b s n g = Some (FOUND, s', \<lambda>j. g (nat (n - 1) + j))"
proof -
  have "nat n \<le> b" using assms by simp
  from loop_large_bound[OF init_roots_below[OF assms(1,2)] init_sizes_within[OF assms(1,2)] this refl]
  show ?thesis by (simp add: randomizeArray_with_pos[OF assms(1)])
qed

theorem randomizeArray_found_when_bound_covers_witness:
  "(1::int) \<le> 50 \<and> (50::int) \<le> int DEFAULT_NUM_PRISONERS \<and> (50::int) \<le> int MAX_TRIALS \<and>
   map_option fst (randomizeArray \<lparr>parent = [], size_tab = []\<rparr> 50 (\<lambda>k. k)) = Some FOUND"
  using randomizeArray_found_when_bound_covers
    [of 50 DEFAULT_NUM_PRISONERS MAX_TRIALS "\<lparr>parent = [], size_tab = []\<rparr>" "\<lambda>k. k"]
  by (auto simp: randomizeArray_def DEFAULT_NUM_PRISONERS_def MAX_TRIALS_def)

text \<open>
  C3. For every n \<ge> 2 and the bound 0 the simulator returns NOT_FOUND at the very first
  union, whatever the draws are: the structure it leaves is the fresh one after the
  single union of n - 1 with the first draw, and one draw is taken.
\<close>

theorem randomizeArray_bound_zero_not_found:
  assumes "2 \<le> n" "n \<le> int N"
  shows "\<exists>s'. union_set (set_union_init s N) (nat (n - 1)) (nat (int (g 0) mod n)) = Some s' \<and>
           randomizeArray_with N 0 s n g = Some (NOT_FOUND, s', \<lambda>j. g (Suc j))"
proof -
  have n1: "1 \<le> n" and c: "0 < n - 1" using assms by simp_all
  have rb: "roots_below (set_union_init s N) (nat (n - 1))"
    by (rule init_roots_below[OF n1 assms(2)])
  obtain s' where u: "union_set (set_union_init s N) (nat (n - 1)) (nat (int (g 0) mod (n - 1 + 1))) = Some s'"
    and l: "randomize_loop 0 (set_union_init s N) (n - 1) g =
             (if size_tab s' ! nat (int (g 0) mod (n - 1 + 1)) > 0
              then Some (NOT_FOUND, s', \<lambda>k. g (Suc k))
              else randomize_loop 0 s' (n - 1 - 1) (\<lambda>k. g (Suc k)))"
    using randomize_loop_step[where g=g and b=0, OF rb c] by blast
  have r: "nat (int (g 0) mod (n - 1 + 1)) \<le> nat (n - 1)" by (rule draw_le[OF c])
  have "0 < size_tab s' ! nat (int (g 0) mod (n - 1 + 1))"
    using u union_set_below[OF rb r] r assms
    by (auto simp: set_union_init_def split: if_splits)
  then show ?thesis using u l by (simp add: randomizeArray_with_pos[OF n1])
qed

theorem randomizeArray_bound_zero_not_found_witness:
  "(2::int) \<le> 100 \<and> (100::int) \<le> int 100 \<and>
   map_option fst (randomizeArray_with 100 0 \<lparr>parent = [], size_tab = []\<rparr> 100 (\<lambda>k. 7)) = Some NOT_FOUND"
  using randomizeArray_bound_zero_not_found[of 100 100 "\<lparr>parent = [], size_tab = []\<rparr>" "\<lambda>k. 7"]
  by auto

text \<open>
  C4. For n = 1 and any bound the simulator returns FOUND without running the loop body:
  the structure is the freshly initialised one (no union) and the generator is the one
  it was given (no draw).
\<close>

theorem randomizeArray_single_prisoner:
  "randomizeArray_with N b s 1 g = Some (FOUND, set_union_init s N, g)"
  by (simp add: randomizeArray_with_def INT_MIN_def randomize_loop.simps)

theorem randomizeArray_single_prisoner_witness:
  "randomizeArray \<lparr>parent = [], size_tab = []\<rparr> 1 (\<lambda>k. k) =
     Some (FOUND, set_union_init \<lparr>parent = [], size_tab = []\<rparr> DEFAULT_NUM_PRISONERS, \<lambda>k. k)"
  using randomizeArray_single_prisoner[of DEFAULT_NUM_PRISONERS MAX_TRIALS "\<lparr>parent = [], size_tab = []\<rparr>" "\<lambda>k. k"]
  by (simp add: randomizeArray_def)

text \<open>
  C7. The simulator is deterministic in its draws: two runs with the same n, the same
  bound and the same n - 1 first draws return the same outcome and leave the same
  structure, whatever the structure held before and whatever the generators would have
  returned later.
\<close>

theorem randomizeArray_deterministic:
  "(\<forall>k<nat (n - 1). g1 k = g2 k) \<Longrightarrow>
   map_option (\<lambda>(f, s', g'). (f, s')) (randomizeArray_with N b s1 n g1) =
   map_option (\<lambda>(f, s', g'). (f, s')) (randomizeArray_with N b s2 n g2)"
  using loop_same_draws[OF refl, of "n - 1" g1 g2 b "set_union_init s1 N"]
  by (simp add: randomizeArray_with_def set_union_init_def)

theorem randomizeArray_deterministic_witness:
  "map_option (\<lambda>(f, s', g'). (f, s'))
     (randomizeArray_with 100 50 \<lparr>parent = [], size_tab = []\<rparr> 3 (\<lambda>k. if k < 2 then 1 else 5)) =
   map_option (\<lambda>(f, s', g'). (f, s'))
     (randomizeArray_with 100 50 \<lparr>parent = [7], size_tab = [9]\<rparr> 3 (\<lambda>k. 1))"
  using randomizeArray_deterministic
    [of 3 "\<lambda>k. if k < 2 then 1 else 5" "\<lambda>k. 1" 100 50 "\<lparr>parent = [], size_tab = []\<rparr>"
      "\<lparr>parent = [7], size_tab = [9]\<rparr>"]
  by simp

section \<open>Properties of seed, simulateAndStats and the workers\<close>

lemma seed_ok:
  "entropy w 0 = Seed_word v \<Longrightarrow>
   seed w = Return () (emit (Srandom v)
                         (w\<lparr>entropy := \<lambda>k. entropy w (Suc k), rng := libc_srandom w v\<rparr>))"
  by (simp add: seed_def)

lemma simulate_loop_runs:
  "nat (n - i) = m \<Longrightarrow>
   \<exists>outs g'. length outs = m \<and>
     simulate_loop n i v s w =
       Return (v + sum_list (map found_value outs))
         (w\<lparr>rng := g', trace := trace w @ map Trial outs\<rparr>)"
proof (induction m arbitrary: i v s w)
  case 0
  then have "\<not> i < n" by simp
  then have "simulate_loop n i v s w = Return v w" by (subst simulate_loop.simps) simp
  then show ?case by (intro exI[of _ "[]"] exI[of _ "rng w"]) simp
next
  case (Suc m)
  then have lt: "i < n" by simp
  obtain f s' g' where r: "runSimulation s (rng w) = Some (f, s', g')"
    using runSimulation_total by blast
  have "nat (n - (i + 1)) = m" using Suc.prems by simp
  from Suc.IH[OF this, of "v + found_value f" s' "emit (Trial f) (w\<lparr>rng := g'\<rparr>)"]
  obtain outs g'' where len: "length outs = m"
    and l: "simulate_loop n (i + 1) (v + found_value f) s' (emit (Trial f) (w\<lparr>rng := g'\<rparr>)) =
       Return (v + found_value f + sum_list (map found_value outs))
         ((emit (Trial f) (w\<lparr>rng := g'\<rparr>))\<lparr>rng := g'',
            trace := trace (emit (Trial f) (w\<lparr>rng := g'\<rparr>)) @ map Trial outs\<rparr>)"
    by blast
  have "simulate_loop n i v s w =
          Return (v + sum_list (map found_value (f # outs)))
            (w\<lparr>rng := g'', trace := trace w @ map Trial (f # outs)\<rparr>)"
    using lt r l by (subst simulate_loop.simps) (simp add: emit_def add.assoc)
  then show ?case using len by (intro exI[of _ "f # outs"] exI[of _ g'']) simp
qed

lemma simulateAndStats_seeded:
  assumes "entropy w 0 = Seed_word v"
  shows "\<exists>outs g'. length outs = nat n \<and>
     simulateAndStats n caller w =
       Return (sum_list (map found_value outs))
         (w\<lparr>rng := g', entropy := \<lambda>k. entropy w (Suc k),
            trace := trace w @ Srandom v # map Trial outs\<rparr>)"
proof -
  let ?w1 = "emit (Srandom v) (w\<lparr>entropy := \<lambda>k. entropy w (Suc k), rng := libc_srandom w v\<rparr>)"
  obtain outs g' where len: "length outs = nat n"
    and l: "simulate_loop n 0 0 \<lparr>parent = [], size_tab = []\<rparr> ?w1 =
       Return (0 + sum_list (map found_value outs))
         (?w1\<lparr>rng := g', trace := trace ?w1 @ map Trial outs\<rparr>)"
    using simulate_loop_runs[of n 0 "nat n" 0 "\<lparr>parent = [], size_tab = []\<rparr>" ?w1] by auto
  have "simulateAndStats n caller w =
       Return (sum_list (map found_value outs))
         (w\<lparr>rng := g', entropy := \<lambda>k. entropy w (Suc k),
            trace := trace w @ Srandom v # map Trial outs\<rparr>)"
    using l by (simp add: simulateAndStats_def seed_ok[OF assms] emit_def)
  then show ?thesis using len by blast
qed

lemma simulateAndStats_cannot_open:
  assumes "entropy w 0 = Cannot_open"
  shows "simulateAndStats n caller w =
     Exit EXIT_FAILURE
       (emit (Perror ''Couldn't open urandom file'') (w\<lparr>entropy := \<lambda>k. entropy w (Suc k)\<rparr>))"
  using assms by (simp add: simulateAndStats_def seed_def)

lemma simulateAndStats_cannot_read:
  assumes "entropy w 0 = Cannot_read"
  shows "simulateAndStats n caller w =
     Exit EXIT_FAILURE
       (emit (Perror ''Couldn't read urandom file'') (w\<lparr>entropy := \<lambda>k. entropy w (Suc k)\<rparr>))"
  using assms by (simp add: simulateAndStats_def seed_def)

lemma params_from_Suc:
  "params_from name q i (Suc k) =
     \<lparr>taskName = name, taskNum = i, numSimulations = q\<rparr> # params_from name q (Suc i) k"
  by (simp add: params_from_def upt_conv_Cons)

lemma listOfParam_params: "listOfParam name n w = params_from name (n sdiv w) 0 (nat w)"
  by (simp add: listOfParam_def params_from_def)

lemma splitSimulation_seeded:
  assumes "entropy w 0 = Seed_word v" "taskNum p < length successes"
  shows "\<exists>outs g'. length outs = nat (numSimulations p) \<and>
     splitSimulation p successes w =
       Return (successes[taskNum p := sum_list (map found_value outs)])
         (w\<lparr>rng := g', entropy := \<lambda>k. entropy w (Suc k),
            trace := trace w @ Announce (taskName p) (int (taskNum p) + 1) (numSimulations p)
                      # Srandom v # map Trial outs\<rparr>)"
proof -
  let ?w0 = "emit (Announce (taskName p) (int (taskNum p) + 1) (numSimulations p)) w"
  have e: "entropy ?w0 0 = Seed_word v" using assms(1) by (simp add: emit_def)
  from simulateAndStats_seeded[OF e, of "numSimulations p" "nameAndNum p"]
  obtain outs g' where len: "length outs = nat (numSimulations p)"
    and sim: "simulateAndStats (numSimulations p) (nameAndNum p) ?w0 =
       Return (sum_list (map found_value outs))
         (?w0\<lparr>rng := g', entropy := \<lambda>k. entropy ?w0 (Suc k),
            trace := trace ?w0 @ Srandom v # map Trial outs\<rparr>)"
    by blast
  have "splitSimulation p successes w =
       Return (successes[taskNum p := sum_list (map found_value outs)])
         (w\<lparr>rng := g', entropy := \<lambda>k. entropy w (Suc k),
            trace := trace w @ Announce (taskName p) (int (taskNum p) + 1) (numSimulations p)
                      # Srandom v # map Trial outs\<rparr>)"
    using assms(2) by (simp add: splitSimulation_def sim) (simp add: emit_def)
  then show ?thesis using len by blast
qed

lemma run_threads_seeded:
  "(\<forall>j<k. \<exists>v. entropy w j = Seed_word v) \<Longrightarrow> i + k \<le> length successes \<Longrightarrow>
   \<exists>xs successes' g'. length xs = k \<and> (\<forall>x\<in>set xs. length (snd x) = nat q) \<and>
     run_threads (params_from name q i k) successes w =
       Return successes'
         (w\<lparr>rng := g', entropy := \<lambda>j. entropy w (k + j),
            trace := trace w @ worker_events name q [] i xs\<rparr>)"
proof (induction k arbitrary: i successes w)
  case 0
  show ?case
    by (intro exI[of _ "[]"] exI[of _ successes] exI[of _ "rng w"])
       (simp add: params_from_def)
next
  case (Suc k)
  let ?p = "\<lparr>taskName = name, taskNum = i, numSimulations = q\<rparr>"
  obtain v where v: "entropy w 0 = Seed_word v" using Suc.prems(1) by blast
  have lt: "taskNum ?p < length successes" using Suc.prems(2) by simp
  from splitSimulation_seeded[OF v lt]
  obtain outs g1 where len: "length outs = nat q"
    and sp: "splitSimulation ?p successes w =
       Return (successes[i := sum_list (map found_value outs)])
         (w\<lparr>rng := g1, entropy := \<lambda>k. entropy w (Suc k),
            trace := trace w @ Announce name (int i + 1) q # Srandom v # map Trial outs\<rparr>)"
    by auto
  let ?w1 = "w\<lparr>rng := g1, entropy := \<lambda>k. entropy w (Suc k),
            trace := trace w @ Announce name (int i + 1) q # Srandom v # map Trial outs\<rparr>"
  let ?s1 = "successes[i := sum_list (map found_value outs)]"
  have e1: "\<forall>j<k. \<exists>v. entropy ?w1 j = Seed_word v" using Suc.prems(1) by simp
  have l1: "Suc i + k \<le> length ?s1" using Suc.prems(2) by simp
  from Suc.IH[OF e1 l1]
  obtain xs successes' g' where lxs: "length xs = k"
    and all: "\<forall>x\<in>set xs. length (snd x) = nat q"
    and rt: "run_threads (params_from name q (Suc i) k) ?s1 ?w1 =
       Return successes'
         (?w1\<lparr>rng := g', entropy := \<lambda>j. entropy ?w1 (k + j),
            trace := trace ?w1 @ worker_events name q [] (Suc i) xs\<rparr>)"
    by blast
  have "run_threads (params_from name q i (Suc k)) successes w =
       Return successes'
         (w\<lparr>rng := g', entropy := \<lambda>j. entropy w (Suc k + j),
            trace := trace w @ worker_events name q [] i ((v, outs) # xs)\<rparr>)"
    by (simp add: params_from_Suc sp rt)
  then show ?case using lxs all len
    by (intro exI[of _ "(v, outs) # xs"] exI[of _ successes'] exI[of _ g']) simp
qed

lemma run_processes_seeded:
  "(\<forall>j<k. \<exists>v. entropy w j = Seed_word v) \<Longrightarrow> (\<forall>j<k. fork_results w j) \<Longrightarrow>
   i + k \<le> length successes \<Longrightarrow>
   \<exists>xs successes'. length xs = k \<and> (\<forall>x\<in>set xs. length (snd x) = nat q) \<and>
     run_processes (params_from name q i k) successes w =
       Return successes'
         (w\<lparr>entropy := \<lambda>j. entropy w (k + j), fork_results := \<lambda>j. fork_results w (k + j),
            trace := trace w @ worker_events name q [Child_exited EXIT_SUCCESS] i xs\<rparr>)"
proof (induction k arbitrary: i successes w)
  case 0
  show ?case
    by (intro exI[of _ "[]"] exI[of _ successes]) (simp add: params_from_def)
next
  case (Suc k)
  let ?p = "\<lparr>taskName = name, taskNum = i, numSimulations = q\<rparr>"
  let ?wf = "w\<lparr>fork_results := \<lambda>k. fork_results w (Suc k)\<rparr>"
  obtain v where v: "entropy ?wf 0 = Seed_word v" using Suc.prems(1) by auto
  have f: "fork_c w = (True, ?wf)" using Suc.prems(2) by (simp add: fork_c_def)
  have lt: "taskNum ?p < length successes" using Suc.prems(3) by simp
  from splitSimulation_seeded[OF v lt]
  obtain outs g1 where len: "length outs = nat q"
    and sp: "splitSimulation ?p successes ?wf =
       Return (successes[i := sum_list (map found_value outs)])
         (?wf\<lparr>rng := g1, entropy := \<lambda>k. entropy ?wf (Suc k),
            trace := trace ?wf @ Announce name (int i + 1) q # Srandom v # map Trial outs\<rparr>)"
    by auto
  let ?w1 = "w\<lparr>entropy := \<lambda>k. entropy w (Suc k), fork_results := \<lambda>k. fork_results w (Suc k),
            trace := trace w @ Announce name (int i + 1) q # Srandom v # map Trial outs
                       @ [Child_exited EXIT_SUCCESS]\<rparr>"
  let ?s1 = "successes[i := sum_list (map found_value outs)]"
  have e1: "\<forall>j<k. \<exists>v. entropy ?w1 j = Seed_word v" using Suc.prems(1) by simp
  have f1: "\<forall>j<k. fork_results ?w1 j" using Suc.prems(2) by simp
  have l1: "Suc i + k \<le> length ?s1" using Suc.prems(3) by simp
  from Suc.IH[OF e1 f1 l1]
  obtain xs successes' where lxs: "length xs = k"
    and all: "\<forall>x\<in>set xs. length (snd x) = nat q"
    and rt: "run_processes (params_from name q (Suc i) k) ?s1 ?w1 =
       Return successes'
         (?w1\<lparr>entropy := \<lambda>j. entropy ?w1 (k + j), fork_results := \<lambda>j. fork_results ?w1 (k + j),
            trace := trace ?w1 @ worker_events name q [Child_exited EXIT_SUCCESS] (Suc i) xs\<rparr>)"
    by blast
  have child: "after_child ?wf (emit (Child_exited EXIT_SUCCESS)
         (?wf\<lparr>rng := g1, entropy := \<lambda>k. entropy ?wf (Suc k),
            trace := trace ?wf @ Announce name (int i + 1) q # Srandom v # map Trial outs\<rparr>)) = ?w1"
    by (rule world.equality) (simp_all add: after_child_def emit_def)
  have step: "run_processes (params_from name q i (Suc k)) successes w =
              run_processes (params_from name q (Suc i) k) ?s1 ?w1"
    by (simp only: params_from_Suc run_processes.simps f prod.case bool.case sp result.case child)
  have weq: "?w1\<lparr>entropy := \<lambda>j. entropy ?w1 (k + j), fork_results := \<lambda>j. fork_results ?w1 (k + j),
            trace := trace ?w1 @ worker_events name q [Child_exited EXIT_SUCCESS] (Suc i) xs\<rparr> =
         w\<lparr>entropy := \<lambda>j. entropy w (Suc k + j), fork_results := \<lambda>j. fork_results w (Suc k + j),
            trace := trace w @ worker_events name q [Child_exited EXIT_SUCCESS] i ((v, outs) # xs)\<rparr>"
    by (rule world.equality) simp_all
  have "run_processes (params_from name q i (Suc k)) successes w =
       Return successes'
         (w\<lparr>entropy := \<lambda>j. entropy w (Suc k + j), fork_results := \<lambda>j. fork_results w (Suc k + j),
            trace := trace w @ worker_events name q [Child_exited EXIT_SUCCESS] i ((v, outs) # xs)\<rparr>)"
    unfolding step rt weq by (rule refl)
  then show ?case using lxs all len
    by (intro exI[of _ "(v, outs) # xs"] exI[of _ successes']) simp
qed

lemma count_trials_append: "count_trials (es @ fs) = count_trials es + count_trials fs"
  by (simp add: count_trials_def)

lemma count_trials_Trials: "count_trials (map Trial outs) = length outs"
  by (induction outs) (simp_all add: count_trials_def)

lemma count_trials_worker_events:
  "(\<forall>x\<in>set xs. length (snd x) = m) \<Longrightarrow> count_trials fin = 0 \<Longrightarrow>
   count_trials (worker_events name q fin i xs) = length xs * m"
proof (induction xs arbitrary: i)
  case Nil
  show ?case by (simp add: count_trials_def)
next
  case (Cons x xs)
  obtain v outs where x: "x = (v, outs)" by (cases x)
  have "count_trials (Announce name (int i + 1) q # Srandom v # map Trial outs @ fin @
          worker_events name q fin (Suc i) xs) =
        count_trials (map Trial outs) + (count_trials fin + count_trials (worker_events name q fin (Suc i) xs))"
    unfolding count_trials_append[symmetric] by (simp add: count_trials_def)
  then show ?case using Cons x by (simp add: count_trials_Trials)
qed

lemma sdiv_nonneg: "0 \<le> n \<Longrightarrow> 0 < k \<Longrightarrow> n sdiv k = n div (k::int)"
  by (simp add: signed_divide_int_def sgn_if)

section \<open>The statistics\<close>

lemma stats_mean_eq: "1 < t \<Longrightarrow> stats_mean s t = Some (of_int s / of_int t)"
  by (simp add: stats_mean_def)

lemma stats_var_eq:
  "1 < t \<Longrightarrow> stats_var s t = Some (of_int s * (1 - of_int s / of_int t) / (of_int t - 1))"
  by (simp add: stats_var_def stats_mean_def INT_MIN_def)

lemma bernoulli_form:
  fixes s t :: real
  assumes "1 < t"
  shows "s * (1 - s / t) / (t - 1) = t * (s / t) * (1 - s / t) / (t - 1)"
  using assms by simp

lemma stats_var_nonneg:
  assumes "1 < t" "0 \<le> s" "s \<le> t"
  shows "0 \<le> (of_int s * (1 - of_int s / of_int t) / (of_int t - 1) :: real) / of_int t"
proof -
  have "(of_int s :: real) / of_int t \<le> 1" using assms by simp
  then have "0 \<le> (of_int s :: real) * (1 - of_int s / of_int t)" using assms by simp
  then show ?thesis using assms by simp
qed

lemma stats_ci_eq:
  assumes "1 < t" "0 \<le> s" "s \<le> t"
  shows "stats_ci s t =
     Some (of_int s / of_int t
             - 1.96 * sqrt (of_int s * (1 - of_int s / of_int t) / (of_int t - 1) / of_int t),
           of_int s / of_int t
             + 1.96 * sqrt (of_int s * (1 - of_int s / of_int t) / (of_int t - 1) / of_int t))"
  using stats_var_nonneg[OF assms] assms(1)
  by (simp add: stats_ci_def stats_var_eq stats_mean_eq not_less)

lemma sqrt_scenario:
  "0.04648 < sqrt (2139 / 990000 :: real) \<and> sqrt (2139 / 990000 :: real) < 0.04649"
proof
  show "0.04648 < sqrt (2139 / 990000 :: real)"
    by (rule real_less_rsqrt) (simp add: power2_eq_square)
  show "sqrt (2139 / 990000 :: real) < 0.04649"
    by (rule real_less_lsqrt) (simp_all add: power2_eq_square)
qed

lemma ci_scenario:
  "\<exists>lo hi. stats_ci 31 100 = Some (lo, hi) \<and>
     \<bar>lo - 0.2188\<bar> < 0.0001 \<and> \<bar>hi - 0.4012\<bar> < 0.0001"
proof -
  have ci: "stats_ci 31 100 =
     Some (0.31 - 1.96 * sqrt (2139 / 990000), 0.31 + 1.96 * sqrt (2139 / 990000))"
    using stats_ci_eq[of 100 31] by simp
  show ?thesis using sqrt_scenario by (simp add: ci abs_less_iff)
qed

lemma var_scenario: "\<exists>v. stats_var 31 100 = Some v \<and> \<bar>v - 0.2161\<bar> < 0.0001"
proof -
  have "stats_var 31 100 = Some (713 / 3300)"
    using stats_var_eq[of 100 31] by simp
  then show ?thesis by (intro exI[of _ "713 / 3300"]) (simp add: abs_less_iff)
qed

text \<open>
  C5. For every success count s and trial count t > 1 printStats computes the mean
  s / t and the variance s * (1 - mean) / (t - 1), which is the unbiased estimator
  t * p * (1 - p) / (t - 1) of a Bernoulli variable with p = mean; for 0 \<le> s \<le> t
  the interval is mean \<plusminus> 1.96 * sqrt (variance / t). For s = 31 and t = 100 the
  mean is 0.31, the variance is 0.2161 and the interval is [0.2188, 0.4012], each up to
  0.0001. The doubles of the program are real numbers here.
\<close>

theorem printStats_formulas:
  assumes "1 < t"
  shows "stats_mean s t = Some (of_int s / of_int t) \<and>
    stats_var s t = Some (of_int s * (1 - of_int s / of_int t) / (of_int t - 1)) \<and>
    stats_var s t =
      Some (of_int t * (of_int s / of_int t) * (1 - of_int s / of_int t) / (of_int t - 1)) \<and>
    (0 \<le> s \<and> s \<le> t \<longrightarrow>
       stats_ci s t =
         Some (of_int s / of_int t
                 - 1.96 * sqrt (of_int s * (1 - of_int s / of_int t) / (of_int t - 1) / of_int t),
               of_int s / of_int t
                 + 1.96 * sqrt (of_int s * (1 - of_int s / of_int t) / (of_int t - 1) / of_int t))) \<and>
    printStats s t caller w =
      emit (Stats caller t (stats_mean s t) (stats_var s t) (stats_ci s t)) w \<and>
    stats_mean 31 100 = Some 0.31 \<and>
    (\<exists>v. stats_var 31 100 = Some v \<and> \<bar>v - 0.2161\<bar> < 0.0001) \<and>
    (\<exists>lo hi. stats_ci 31 100 = Some (lo, hi) \<and>
       \<bar>lo - 0.2188\<bar> < 0.0001 \<and> \<bar>hi - 0.4012\<bar> < 0.0001)"
proof -
  have t: "1 < (of_int t :: real)" using assms by simp
  have b: "stats_var s t =
      Some (of_int t * (of_int s / of_int t) * (1 - of_int s / of_int t) / (of_int t - 1))"
    using bernoulli_form[OF t, of "of_int s"] by (simp add: stats_var_eq[OF assms])
  have m: "stats_mean 31 100 = Some 0.31" using stats_mean_eq[of 100 31] by simp
  show ?thesis
    using stats_mean_eq[OF assms, of s] stats_var_eq[OF assms, of s] b
      stats_ci_eq[OF assms, of s] m var_scenario ci_scenario
    by (simp add: printStats_def)
qed

theorem printStats_formulas_witness:
  "(1::int) < 100 \<and> stats_mean 31 100 = Some (31 / 100) \<and>
   stats_var 50 100 = Some (25 / 99)"
  using printStats_formulas[of 100 31] printStats_formulas[of 100 50]
  by simp

section \<open>Seeding\<close>

text \<open>
  C9. If /dev/urandom cannot be opened or cannot be read, seed ends the process at once
  with EXIT_FAILURE: one message, one attempt on the entropy source, the generator left
  as it was and no trial run; simulateAndStats ends the same way. Otherwise seed sets
  the generator from the word it read, and simulateAndStats seeds exactly once, before
  the first of its n trials.
\<close>

theorem seed_failure_fatal_else_once:
  "(entropy w 0 = Cannot_open \<longrightarrow>
      seed w = Exit EXIT_FAILURE
                 (emit (Perror ''Couldn't open urandom file'')
                    (w\<lparr>entropy := \<lambda>k. entropy w (Suc k)\<rparr>)) \<and>
      simulateAndStats n caller w =
        Exit EXIT_FAILURE
          (emit (Perror ''Couldn't open urandom file'')
             (w\<lparr>entropy := \<lambda>k. entropy w (Suc k)\<rparr>))) \<and>
   (entropy w 0 = Cannot_read \<longrightarrow>
      seed w = Exit EXIT_FAILURE
                 (emit (Perror ''Couldn't read urandom file'')
                    (w\<lparr>entropy := \<lambda>k. entropy w (Suc k)\<rparr>)) \<and>
      simulateAndStats n caller w =
        Exit EXIT_FAILURE
          (emit (Perror ''Couldn't read urandom file'')
             (w\<lparr>entropy := \<lambda>k. entropy w (Suc k)\<rparr>))) \<and>
   (\<forall>v. entropy w 0 = Seed_word v \<longrightarrow>
      seed w = Return () (emit (Srandom v)
                 (w\<lparr>entropy := \<lambda>k. entropy w (Suc k), rng := libc_srandom w v\<rparr>)) \<and>
      (\<exists>outs g'. length outs = nat n \<and>
         simulateAndStats n caller w =
           Return (sum_list (map found_value outs))
             (w\<lparr>rng := g', entropy := \<lambda>k. entropy w (Suc k),
                trace := trace w @ Srandom v # map Trial outs\<rparr>)))"
proof (intro conjI impI allI)
  fix v assume "entropy w 0 = Seed_word v"
  then show "\<exists>outs g'. length outs = nat n \<and>
         simulateAndStats n caller w =
           Return (sum_list (map found_value outs))
             (w\<lparr>rng := g', entropy := \<lambda>k. entropy w (Suc k),
                trace := trace w @ Srandom v # map Trial outs\<rparr>)"
    by (rule simulateAndStats_seeded)
qed (simp_all add: seed_def simulateAndStats_cannot_open simulateAndStats_cannot_read)

theorem seed_failure_fatal_else_once_witness:
  "simulateAndStats 2 [] (sample_world Cannot_open) =
     Exit EXIT_FAILURE
       (emit (Perror ''Couldn't open urandom file'') (sample_world Cannot_open)) \<and>
   simulateAndStats 2 [] (sample_world Cannot_read) =
     Exit EXIT_FAILURE
       (emit (Perror ''Couldn't read urandom file'') (sample_world Cannot_read)) \<and>
   count_seedings (result_trace (simulateAndStats 2 [] (sample_world (Seed_word 7)))) = 1 \<and>
   count_trials (result_trace (simulateAndStats 2 [] (sample_world (Seed_word 7)))) = 2 \<and>
   hd (result_trace (simulateAndStats 2 [] (sample_world (Seed_word 7)))) = Srandom 7"
proof -
  have shift: "\<And>u. sample_world u\<lparr>entropy := \<lambda>k. entropy (sample_world u) (Suc k)\<rparr> =
                  sample_world u"
    by (simp add: sample_world_def)
  have o: "entropy (sample_world Cannot_open) 0 = Cannot_open"
    and r: "entropy (sample_world Cannot_read) 0 = Cannot_read"
    and k: "entropy (sample_world (Seed_word 7)) 0 = Seed_word 7"
    by (simp_all add: sample_world_def)
  have tr: "trace (sample_world (Seed_word 7)) = []" by (simp add: sample_world_def)
  show ?thesis
    using seed_failure_fatal_else_once[of "sample_world Cannot_open" 2 "[]"]
      seed_failure_fatal_else_once[of "sample_world Cannot_read" 2 "[]"]
      seed_failure_fatal_else_once[of "sample_world (Seed_word 7)" 2 "[]"]
    by (auto simp: o r k shift tr result_trace_def count_seedings_def count_trials_def)
qed

section \<open>Splitting the trials among workers\<close>

text \<open>
  C6. When n \<ge> 0 requested trials are split among w > 0 workers, threads or processes,
  every worker is given n div w simulations and, where every worker gets its seed and
  every fork succeeds, performs exactly that many trials: the run consists of the
  workers' segments, each with its announcement of n div w simulations, its seeding and
  n div w trials, followed by the statistics for (n div w) * w simulations. The trials
  performed are (n div w) * w in all; with 3 workers and 10 requested trials that is 9.
\<close>

theorem workers_split_drops_remainder:
  assumes n: "0 \<le> n" and k: "0 < numWorkers"
    and ent: "\<forall>j<nat numWorkers. \<exists>v. entropy w j = Seed_word v"
    and forks: "\<forall>j<nat numWorkers. fork_results w j"
  shows "(\<forall>p\<in>set (listOfParam name n numWorkers). numSimulations p = n div numWorkers) \<and>
   length (listOfParam name n numWorkers) = nat numWorkers \<and>
   (\<exists>xs S g'. length xs = nat numWorkers \<and>
      (\<forall>x\<in>set xs. length (snd x) = nat (n div numWorkers)) \<and>
      simulateAndStatsWithThreads n numWorkers w =
        Return ()
          (printStats S ((n div numWorkers) * numWorkers) ''All threads''
             (w\<lparr>rng := g', entropy := \<lambda>j. entropy w (nat numWorkers + j),
                trace := trace w @ worker_events ''Thread'' (n div numWorkers) [] 0 xs\<rparr>))) \<and>
   (\<exists>xs S. length xs = nat numWorkers \<and>
      (\<forall>x\<in>set xs. length (snd x) = nat (n div numWorkers)) \<and>
      simulateAndStatsWithProcesses n numWorkers w =
        Return ()
          (printStats S ((n div numWorkers) * numWorkers) ''All processes''
             (w\<lparr>entropy := \<lambda>j. entropy w (nat numWorkers + j),
                fork_results := \<lambda>j. fork_results w (nat numWorkers + j),
                trace := trace w @
                  worker_events ''Process'' (n div numWorkers) [Child_exited EXIT_SUCCESS] 0 xs\<rparr>))) \<and>
   count_trials (result_trace (simulateAndStatsWithThreads n numWorkers w)) =
     count_trials (trace w) + nat ((n div numWorkers) * numWorkers) \<and>
   count_trials (result_trace (simulateAndStatsWithProcesses n numWorkers w)) =
     count_trials (trace w) + nat ((n div numWorkers) * numWorkers)"
proof -
  let ?q = "n div numWorkers"
  have q: "n sdiv numWorkers = ?q" by (rule sdiv_nonneg[OF n k])
  have q0: "0 \<le> ?q" using n k by (simp add: pos_imp_zdiv_nonneg_iff)
  have total: "nat numWorkers * nat ?q = nat (?q * numWorkers)"
    using k q0 by (simp add: nat_mult_distrib mult.commute)
  have len: "0 + nat numWorkers \<le> length (replicate (nat numWorkers) (0::int))" by simp
  have params: "\<forall>p\<in>set (listOfParam name n numWorkers). numSimulations p = ?q"
    by (auto simp: listOfParam_def q)
  have plen: "length (listOfParam name n numWorkers) = nat numWorkers"
    by (simp add: listOfParam_def)
  from run_threads_seeded[OF ent len, of ?q "''Thread''"]
  obtain xs successes' g' where lxs: "length xs = nat numWorkers"
    and all: "\<forall>x\<in>set xs. length (snd x) = nat ?q"
    and rt: "run_threads (params_from ''Thread'' ?q 0 (nat numWorkers))
               (replicate (nat numWorkers) 0) w =
       Return successes'
         (w\<lparr>rng := g', entropy := \<lambda>j. entropy w (nat numWorkers + j),
            trace := trace w @ worker_events ''Thread'' ?q [] 0 xs\<rparr>)"
    by blast
  have th: "simulateAndStatsWithThreads n numWorkers w =
        Return ()
          (printStats (sum_list successes') (?q * numWorkers) ''All threads''
             (w\<lparr>rng := g', entropy := \<lambda>j. entropy w (nat numWorkers + j),
                trace := trace w @ worker_events ''Thread'' ?q [] 0 xs\<rparr>))"
    using k by (simp add: simulateAndStatsWithThreads_def listOfParam_params q rt)
  from run_processes_seeded[OF ent forks len, of ?q "''Process''"]
  obtain ys successes'' where lys: "length ys = nat numWorkers"
    and allp: "\<forall>x\<in>set ys. length (snd x) = nat ?q"
    and rp: "run_processes (params_from ''Process'' ?q 0 (nat numWorkers))
               (replicate (nat numWorkers) 0) w =
       Return successes''
         (w\<lparr>entropy := \<lambda>j. entropy w (nat numWorkers + j),
            fork_results := \<lambda>j. fork_results w (nat numWorkers + j),
            trace := trace w @ worker_events ''Process'' ?q [Child_exited EXIT_SUCCESS] 0 ys\<rparr>)"
    by blast
  have pr: "simulateAndStatsWithProcesses n numWorkers w =
        Return ()
          (printStats (sum_list successes'') (?q * numWorkers) ''All processes''
             (w\<lparr>entropy := \<lambda>j. entropy w (nat numWorkers + j),
                fork_results := \<lambda>j. fork_results w (nat numWorkers + j),
                trace := trace w @
                  worker_events ''Process'' ?q [Child_exited EXIT_SUCCESS] 0 ys\<rparr>))"
    using k by (simp add: simulateAndStatsWithProcesses_def listOfParam_params q rp)
  have ct: "count_trials (result_trace (simulateAndStatsWithThreads n numWorkers w)) =
     count_trials (trace w) + nat (?q * numWorkers)"
    using count_trials_worker_events[OF all, of "[]" "''Thread''" ?q 0] lxs total
    by (simp add: th result_trace_def printStats_def emit_def count_trials_append)
       (simp add: count_trials_def)
  have cp: "count_trials (result_trace (simulateAndStatsWithProcesses n numWorkers w)) =
     count_trials (trace w) + nat (?q * numWorkers)"
    using count_trials_worker_events[OF allp, of "[Child_exited EXIT_SUCCESS]" "''Process''" ?q 0]
      lys total
    by (simp add: pr result_trace_def printStats_def emit_def count_trials_append)
       (simp add: count_trials_def)
  show ?thesis
    using params plen lxs all th lys allp pr ct cp by blast
qed

theorem workers_split_drops_remainder_witness:
  "(0::int) \<le> 10 \<and> (0::int) < 3 \<and> (10::int) div 3 * 3 = 9 \<and>
   count_trials (result_trace (simulateAndStatsWithThreads 10 3 (sample_world (Seed_word 7)))) = 9 \<and>
   count_trials (result_trace (simulateAndStatsWithProcesses 10 3 (sample_world (Seed_word 7)))) = 9"
proof -
  let ?w = "sample_world (Seed_word 7)"
  have n: "(0::int) \<le> 10" and k: "(0::int) < 3" by simp_all
  have ent: "\<forall>j<nat 3. \<exists>v. entropy ?w j = Seed_word v" by (simp add: sample_world_def)
  have forks: "\<forall>j<nat 3. fork_results ?w j" by (simp add: sample_world_def)
  have tr: "count_trials (trace ?w) = 0" by (simp add: sample_world_def count_trials_def)
  have "count_trials (result_trace (simulateAndStatsWithThreads 10 3 ?w)) =
          count_trials (trace ?w) + nat (10 div 3 * 3) \<and>
        count_trials (result_trace (simulateAndStatsWithProcesses 10 3 ?w)) =
          count_trials (trace ?w) + nat (10 div 3 * 3)"
    using workers_split_drops_remainder[OF n k ent forks, of "''Thread''"] by blast
  then show ?thesis by (simp add: tr)
qed

section \<open>The command line\<close>

lemma bind_result_Return_const:
  "bind_result r (\<lambda>x w. Return c0 (f x w)) = Return c w' \<Longrightarrow> c = c0"
  by (cases r) simp_all

lemma main_usage: "\<not> main_accepts argv \<Longrightarrow> main argv w = Return EXIT_SUCCESS (printUsage w)"
  by (auto simp: main_def main_accepts_def Let_def)

lemma main_returns_success: "main argv w = Return c w' \<Longrightarrow> c = EXIT_SUCCESS"
  by (auto simp: main_def Let_def split: if_splits dest: bind_result_Return_const)

lemma accepted_form_main_accepts: "accepted_form argv \<Longrightarrow> main_accepts argv"
  by (auto simp: accepted_form_def main_accepts_def first_char_def)

text \<open>
  C8, as the program has it. main tests the number of arguments and the first character
  of the mode only. For every argument vector that fails this test main prints the usage
  message, does nothing else (no seeding, no trial) and returns EXIT_SUCCESS; whenever
  main returns, it returns EXIT_SUCCESS; and the three forms of the specification pass
  the test.
\<close>

theorem main_usage_unless_accepted:
  "(\<not> main_accepts argv \<longrightarrow> main argv w = Return EXIT_SUCCESS (printUsage w)) \<and>
   (\<forall>c w'. main argv w = Return c w' \<longrightarrow> c = EXIT_SUCCESS) \<and>
   (accepted_form argv \<longrightarrow> main_accepts argv)"
  using main_usage main_returns_success accepted_form_main_accepts by blast

theorem main_usage_unless_accepted_witness:
  "\<not> main_accepts [''run'', ''1'', ''x''] \<and>
   main [''run'', ''1'', ''x''] (sample_world (Seed_word 7)) =
     Return EXIT_SUCCESS (printUsage (sample_world (Seed_word 7))) \<and>
   accepted_form [''run'', ''1'', ''s''] \<and> main_accepts [''run'', ''1'', ''s'']"
  using main_usage_unless_accepted[of "[''run'', ''1'', ''x'']" "sample_world (Seed_word 7)"]
    main_usage_unless_accepted[of "[''run'', ''1'', ''s'']" "sample_world (Seed_word 7)"]
  by (simp add: main_accepts_def accepted_form_def first_char_def)

text \<open>
  C8, as the specification has it, fails: the arguments \<open>run 1 sx\<close> are none of the
  three forms, and main runs one sequential trial on them and prints no usage message.
\<close>

theorem main_accepts_longer_mode_counterexample:
  "\<not> accepted_form [''run'', ''1'', ''sx''] \<and>
   count_trials (result_trace (main [''run'', ''1'', ''sx''] (sample_world (Seed_word 7)))) = 1 \<and>
   Usage \<notin> set (result_trace (main [''run'', ''1'', ''sx''] (sample_world (Seed_word 7))))"
proof -
  let ?w = "sample_world (Seed_word 7)"
  have e: "entropy ?w 0 = Seed_word 7" by (simp add: sample_world_def)
  have a: "libc_atoi ?w ''1'' = 1" and t: "trace ?w = []" by (simp_all add: sample_world_def)
  from simulateAndStats_seeded[OF e, of 1 "''Sequence (Single Thread / Process)''"]
  obtain outs g' where len: "length outs = 1"
    and sim: "simulateAndStats 1 ''Sequence (Single Thread / Process)'' ?w =
       Return (sum_list (map found_value outs))
         (?w\<lparr>rng := g', entropy := \<lambda>k. entropy ?w (Suc k),
            trace := trace ?w @ Srandom 7 # map Trial outs\<rparr>)"
    by auto
  obtain f where outs: "outs = [f]" using len by (cases outs) auto
  have m: "result_trace (main [''run'', ''1'', ''sx''] ?w) =
     [Srandom 7, Trial f,
      Stats ''Sequence (Single Thread / Process)'' 1
        (stats_mean (found_value f) 1) (stats_var (found_value f) 1) (stats_ci (found_value f) 1)]"
    by (simp add: main_def first_char_def a sim outs t result_trace_def printStats_def emit_def)
  show ?thesis unfolding m by (simp add: accepted_form_def count_trials_def)
qed

section \<open>Every trial is a trial of 100 prisoners with the bound 50\<close>

lemma find_upt_Some:
  "List.find P [0..<m] = Some k \<Longrightarrow> k < m \<and> P k \<and> (\<forall>j<k. \<not> P j)"
  by (auto simp: find_Some_iff)

lemma find_upt_None: "List.find P [0..<m] = None \<Longrightarrow> \<forall>k<m. \<not> P k"
  by (auto simp: find_None_iff)

lemma set_union_init_any: "set_union_init s N = set_union_init t N"
  by (simp add: set_union_init_def)

lemma runSimulation_trial:
  "\<exists>s'. runSimulation s g = Some (fst (trial_100_50 g), s', snd (trial_100_50 g)) \<and>
        length (parent s') = 100 \<and> length (size_tab s') = 100"
proof -
  let ?t = "set_union_init \<lparr>parent = [], size_tab = []\<rparr> 100"
  let ?E = "exceeds_at 50 ?t 99 g"
  have run: "runSimulation s g = randomize_loop 50 ?t 99 g"
    by (simp add: runSimulation_def randomizeArray_def randomizeArray_with_def INT_MIN_def
          DEFAULT_NUM_PRISONERS_def MAX_TRIALS_def set_union_init_any[of s 100 "\<lparr>parent = [], size_tab = []\<rparr>"])
  have rb: "roots_below ?t (nat 99)"
    using init_roots_below[of 100 100 "\<lparr>parent = [], size_tab = []\<rparr>"] by simp
  obtain f s' g' where some: "randomize_loop 50 ?t 99 g = Some (f, s', g')"
    and lens: "length (parent s') = length (parent ?t)" "length (size_tab s') = length (size_tab ?t)"
    using randomize_loop_lengths[OF rb refl, of 50 g] by blast
  have len100: "length (parent s') = 100 \<and> length (size_tab s') = 100"
    using lens by (simp add: set_union_init_def)
  show ?thesis
  proof (cases "List.find ?E [0..<99]")
    case None
    then have "\<forall>k<nat 99. \<not> ?E k" using find_upt_None[of ?E 99] by simp
    from loop_found[OF rb refl this]
    have "\<exists>s''. randomize_loop 50 ?t 99 g = Some (FOUND, s'', \<lambda>j. g (99 + j))" by auto
    then show ?thesis using some len100 None by (auto simp: run trial_100_50_def)
  next
    case (Some k)
    then have k: "k < 99" "?E k" "\<forall>j<k. \<not> ?E j" using find_upt_Some[of ?E 99 k] by auto
    have "int k < 99" using k(1) by simp
    from loop_not_found[OF rb this k(2,3)]
    have "\<exists>s''. randomize_loop 50 ?t 99 g = Some (NOT_FOUND, s'', \<lambda>j. g (Suc k + j))" by auto
    then show ?thesis using some len100 Some by (auto simp: run trial_100_50_def)
  qed
qed

lemma explained_append:
  "explained sr cur (es @ fs) \<longleftrightarrow>
   explained sr cur es \<and> explained sr (generator_after sr cur es) fs"
  by (induction sr cur es rule: explained.induct) simp_all

lemma explained_always_append:
  "(\<forall>cur. explained sr cur es) \<Longrightarrow> (\<forall>cur. explained sr cur fs) \<Longrightarrow>
   \<forall>cur. explained sr cur (es @ fs)"
  by (simp add: explained_append)

lemma adds_explained_refl: "adds_explained w w"
  by (simp add: adds_explained_def)

lemma adds_explained_trans:
  assumes "adds_explained w w1" "adds_explained w1 w2"
  shows "adds_explained w w2"
proof -
  obtain new1 where n1: "trace w1 = trace w @ new1" "\<forall>cur. explained (libc_srandom w) cur new1"
    and l1: "libc_srandom w1 = libc_srandom w"
    using assms(1) by (auto simp: adds_explained_def)
  obtain new2 where n2: "trace w2 = trace w1 @ new2" "\<forall>cur. explained (libc_srandom w) cur new2"
    and l2: "libc_srandom w2 = libc_srandom w"
    using assms(2) l1 by (auto simp: adds_explained_def)
  have "trace w2 = trace w @ (new1 @ new2)" using n1(1) n2(1) by simp
  moreover have "\<forall>cur. explained (libc_srandom w) cur (new1 @ new2)"
    by (rule explained_always_append[OF n1(2) n2(2)])
  ultimately show ?thesis using l2 unfolding adds_explained_def by blast
qed

lemma result_explained_after:
  "adds_explained w w1 \<Longrightarrow> result_explained w1 r \<Longrightarrow> result_explained w r"
  by (cases r) (auto simp: result_explained_def intro: adds_explained_trans)

lemma result_explained_bind:
  assumes "result_explained w r"
    and "\<And>x w1. adds_explained w w1 \<Longrightarrow> result_explained w1 (f x w1)"
  shows "result_explained w (bind_result r f)"
proof (cases r)
  case (Return x w1)
  then have a: "adds_explained w w1" using assms(1) by (simp add: result_explained_def)
  show ?thesis using result_explained_after[OF a assms(2)[OF a]] Return by simp
next
  case (Exit c w1)
  then show ?thesis using assms(1) by (simp add: result_explained_def)
next
  case Undefined
  then show ?thesis by (simp add: result_explained_def)
qed

lemma adds_explained_other:
  assumes "\<And>cur. explained (libc_srandom w) cur [e]"
  shows "adds_explained w (emit e w)"
  unfolding adds_explained_def emit_def using assms by auto

lemma adds_explained_emit [simp]:
  "adds_explained w (emit (Perror m) w)"
  "adds_explained w (emit Usage w)"
  "adds_explained w (emit (Announce a b c) w)"
  "adds_explained w (emit (Stats a n x y z) w)"
  "adds_explained w (emit (Child_exited k) w)"
  by (rule adds_explained_other, simp)+

lemma simulate_loop_explained:
  "nat (n - i) = m \<Longrightarrow>
   \<exists>new g' v'. simulate_loop n i v s w = Return v' (w\<lparr>rng := g', trace := trace w @ new\<rparr>) \<and>
     explained sr (rng w) new"
proof (induction m arbitrary: i v s w)
  case 0
  then have "\<not> i < n" by simp
  then have "simulate_loop n i v s w = Return v w" by (subst simulate_loop.simps) simp
  then show ?case by (intro exI[of _ "[]"] exI[of _ "rng w"] exI[of _ v]) simp
next
  case (Suc m)
  then have lt: "i < n" by simp
  obtain s' where r: "runSimulation s (rng w) =
      Some (fst (trial_100_50 (rng w)), s', snd (trial_100_50 (rng w)))"
    using runSimulation_trial by blast
  let ?f = "fst (trial_100_50 (rng w))" and ?g = "snd (trial_100_50 (rng w))"
  let ?w1 = "emit (Trial ?f) (w\<lparr>rng := ?g\<rparr>)"
  have "nat (n - (i + 1)) = m" using Suc.prems by simp
  from Suc.IH[OF this, of "v + found_value ?f" s' ?w1]
  obtain new g' v' where l: "simulate_loop n (i + 1) (v + found_value ?f) s' ?w1 =
       Return v' (?w1\<lparr>rng := g', trace := trace ?w1 @ new\<rparr>)"
    and e: "explained sr (rng ?w1) new"
    by blast
  have "simulate_loop n i v s w = Return v' (w\<lparr>rng := g', trace := trace w @ Trial ?f # new\<rparr>)"
    using lt r l by (subst simulate_loop.simps) (simp add: emit_def)
  moreover have "explained sr (rng w) (Trial ?f # new)" using e by (simp add: emit_def)
  ultimately show ?case by blast
qed

lemma simulateAndStats_explained: "result_explained w (simulateAndStats n caller w)"
proof (cases "entropy w 0")
  case Cannot_open
  have "adds_explained w (w\<lparr>entropy := \<lambda>k. entropy w (Suc k)\<rparr>)"
    by (simp add: adds_explained_def)
  from adds_explained_trans[OF this adds_explained_emit(1)] show ?thesis
    using Cannot_open by (simp add: simulateAndStats_def seed_def result_explained_def)
next
  case Cannot_read
  have "adds_explained w (w\<lparr>entropy := \<lambda>k. entropy w (Suc k)\<rparr>)"
    by (simp add: adds_explained_def)
  from adds_explained_trans[OF this adds_explained_emit(1)] show ?thesis
    using Cannot_read by (simp add: simulateAndStats_def seed_def result_explained_def)
next
  case (Seed_word v)
  let ?w1 = "emit (Srandom v) (w\<lparr>entropy := \<lambda>k. entropy w (Suc k), rng := libc_srandom w v\<rparr>)"
  obtain new g' v' where l: "simulate_loop n 0 0 \<lparr>parent = [], size_tab = []\<rparr> ?w1 =
       Return v' (?w1\<lparr>rng := g', trace := trace ?w1 @ new\<rparr>)"
    and e: "explained (libc_srandom w) (rng ?w1) new"
    using simulate_loop_explained[OF refl, of n 0 0 "\<lparr>parent = [], size_tab = []\<rparr>" ?w1 "libc_srandom w"]
    by blast
  have tr: "trace (?w1\<lparr>rng := g', trace := trace ?w1 @ new\<rparr>) = trace w @ (Srandom v # new)"
    by (simp add: emit_def)
  have ex: "\<forall>cur. explained (libc_srandom w) cur (Srandom v # new)"
    using e by (simp add: emit_def)
  have "adds_explained w (?w1\<lparr>rng := g', trace := trace ?w1 @ new\<rparr>)"
    unfolding adds_explained_def using tr ex by (auto simp: emit_def)
  then show ?thesis
    using l by (simp add: simulateAndStats_def seed_ok[OF Seed_word] result_explained_def)
qed

lemma splitSimulation_explained: "result_explained w (splitSimulation p successes w)"
proof -
  let ?w0 = "emit (Announce (taskName p) (int (taskNum p) + 1) (numSimulations p)) w"
  have "result_explained ?w0
     (bind_result (simulateAndStats (numSimulations p) (nameAndNum p) ?w0)
        (\<lambda>sum_v w'.
          if taskNum p < length successes then Return (successes[taskNum p := sum_v]) w'
          else Undefined))"
    by (rule result_explained_bind[OF simulateAndStats_explained])
       (simp add: result_explained_def adds_explained_refl)
  from result_explained_after[OF adds_explained_emit(3) this] show ?thesis
    by (simp add: splitSimulation_def)
qed

lemma run_threads_explained: "result_explained w (run_threads ps successes w)"
proof (induction ps arbitrary: successes w)
  case Nil
  show ?case by (simp add: result_explained_def adds_explained_refl)
next
  case (Cons p ps)
  show ?case
    unfolding run_threads.simps
    by (rule result_explained_bind[OF splitSimulation_explained]) (rule Cons.IH)
qed

lemma simulateAndStatsWithThreads_explained:
  "result_explained w (simulateAndStatsWithThreads n numThreads w)"
proof (cases "numThreads \<le> 0")
  case True
  then show ?thesis by (simp add: simulateAndStatsWithThreads_def result_explained_def)
next
  case False
  have "result_explained w
     (bind_result
        (run_threads (listOfParam ''Thread'' n numThreads) (replicate (nat numThreads) 0) w)
        (\<lambda>successes w'.
           Return ()
             (printStats (sum_list successes) ((n sdiv numThreads) * numThreads)
                ''All threads'' w')))"
    by (rule result_explained_bind[OF run_threads_explained])
       (simp add: result_explained_def printStats_def)
  then show ?thesis using False by (simp add: simulateAndStatsWithThreads_def)
qed

lemma fork_c_explained: "fork_c w = (b, w1) \<Longrightarrow> adds_explained w w1"
  by (auto simp: fork_c_def adds_explained_def)

lemma after_child_explained:
  "adds_explained w1 wc \<Longrightarrow> adds_explained w1 (after_child w1 (emit (Child_exited c) wc))"
  by (auto simp: adds_explained_def after_child_def emit_def explained_append)

lemma run_processes_explained: "result_explained w (run_processes ps successes w)"
proof (induction ps arbitrary: successes w)
  case Nil
  show ?case by (simp add: result_explained_def adds_explained_refl)
next
  case (Cons p ps)
  obtain b w1 where f: "fork_c w = (b, w1)" by (cases "fork_c w")
  note a = fork_c_explained[OF f]
  show ?case
  proof (cases b)
    case False
    have "adds_explained w (emit (Perror ''fork failed'') w1)"
      by (rule adds_explained_trans[OF a adds_explained_emit(1)])
    then show ?thesis using f False by (simp add: result_explained_def)
  next
    case True
    have sp: "result_explained w1 (splitSimulation p successes w1)"
      by (rule splitSimulation_explained)
    have "result_explained w1
       (case splitSimulation p successes w1 of
          Undefined \<Rightarrow> Undefined
        | Return successes' wc \<Rightarrow>
            run_processes ps successes' (after_child w1 (emit (Child_exited EXIT_SUCCESS) wc))
        | Exit c wc \<Rightarrow>
            run_processes ps successes (after_child w1 (emit (Child_exited c) wc)))"
    proof (cases "splitSimulation p successes w1")
      case (Return successes' wc)
      then have "adds_explained w1 wc" using sp by (simp add: result_explained_def)
      from result_explained_after[OF after_child_explained[OF this] Cons.IH]
      show ?thesis using Return by simp
    next
      case (Exit c wc)
      then have "adds_explained w1 wc" using sp by (simp add: result_explained_def)
      from result_explained_after[OF after_child_explained[OF this] Cons.IH]
      show ?thesis using Exit by simp
    next
      case Undefined
      then show ?thesis by (simp add: result_explained_def)
    qed
    from result_explained_after[OF a this] show ?thesis using f True by simp
  qed
qed

lemma simulateAndStatsWithProcesses_explained:
  "result_explained w (simulateAndStatsWithProcesses n numProcesses w)"
proof (cases "numProcesses \<le> 0")
  case True
  then show ?thesis by (simp add: simulateAndStatsWithProcesses_def result_explained_def)
next
  case False
  have "result_explained w
     (bind_result
        (run_processes (listOfParam ''Process'' n numProcesses)
           (replicate (nat numProcesses) 0) w)
        (\<lambda>successes w'.
           Return ()
             (printStats (sum_list successes) ((n sdiv numProcesses) * numProcesses)
                ''All processes'' w')))"
    by (rule result_explained_bind[OF run_processes_explained])
       (simp add: result_explained_def printStats_def)
  then show ?thesis using False by (simp add: simulateAndStatsWithProcesses_def)
qed

lemma main_explained: "result_explained w (main argv w)"
proof -
  have seq: "result_explained w
      (bind_result (simulateAndStats n c w)
         (\<lambda>sum_v w'. Return EXIT_SUCCESS (printStats sum_v n c w')))" for n c
    by (rule result_explained_bind[OF simulateAndStats_explained])
       (simp add: result_explained_def printStats_def)
  have pr: "result_explained w
      (bind_result (simulateAndStatsWithProcesses n k w) (\<lambda>_ w'. Return EXIT_SUCCESS w'))" for n k
    by (rule result_explained_bind[OF simulateAndStatsWithProcesses_explained])
       (simp add: result_explained_def adds_explained_refl)
  have th: "result_explained w
      (bind_result (simulateAndStatsWithThreads n k w) (\<lambda>_ w'. Return EXIT_SUCCESS w'))" for n k
    by (rule result_explained_bind[OF simulateAndStatsWithThreads_explained])
       (simp add: result_explained_def adds_explained_refl)
  have us: "result_explained w (Return EXIT_SUCCESS (printUsage w))"
    by (simp add: result_explained_def printUsage_def)
  show ?thesis using seq pr th us by (simp add: main_def Let_def)
qed

lemma result_explained_new_events:
  assumes "result_explained w r"
  shows "explained (libc_srandom w) cur (drop (length (trace w)) (result_trace r))"
  using assms
  by (cases r) (auto simp: result_explained_def adds_explained_def result_trace_def)

lemma randomizeArray_outcome:
  assumes "1 \<le> sz" "sz \<le> 100"
  shows "\<exists>s' g'. randomizeArray s sz g =
      Some (if \<exists>k<nat (sz - 1). exceeds_at 50 (set_union_init s 100) (sz - 1) g k
            then NOT_FOUND else FOUND, s', g')"
proof -
  let ?t = "set_union_init s 100"
  let ?E = "exceeds_at 50 ?t (sz - 1) g"
  have run: "randomizeArray s sz g = randomize_loop 50 ?t (sz - 1) g"
    by (simp add: randomizeArray_def randomizeArray_with_pos[OF assms(1)]
          DEFAULT_NUM_PRISONERS_def MAX_TRIALS_def)
  have rb: "roots_below ?t (nat (sz - 1))"
    using init_roots_below[OF assms(1), of 100 s] assms(2) by simp
  show ?thesis
  proof (cases "List.find ?E [0..<nat (sz - 1)]")
    case None
    then have no: "\<forall>k<nat (sz - 1). \<not> ?E k" by (rule find_upt_None)
    from loop_found[OF rb refl no] show ?thesis using no by (auto simp: run)
  next
    case (Some k)
    then have k: "k < nat (sz - 1)" "?E k" "\<forall>j<k. \<not> ?E j"
      using find_upt_Some[of ?E "nat (sz - 1)" k] by auto
    have "int k < sz - 1" using k(1) by simp
    from loop_not_found[OF rb this k(2,3)] show ?thesis using k(1,2) by (auto simp: run)
  qed
qed

text \<open>
  C10. Whatever the command line, every trial simulates 100 prisoners with the bound 50.
  runSimulation returns the outcome of a trial of 100 prisoners with the bound 50 on the
  generator it is given and leaves the generator that trial leaves. randomizeArray
  leaves a structure of 100 elements whatever its size parameter is, from the least int
  (for which \<open>size - 1\<close> overflows) exclusive up to 100, and for a size from 1 to 100
  it answers NOT_FOUND exactly when a step makes a partition of that structure larger
  than 50. For every argument vector and every environment, the events that main adds
  are explained by such trials: every trial main runs, in any mode, has the outcome of
  a trial of 100 prisoners with the bound 50 on the generator that the seeding and the
  trials before it left. Nothing of the command line reaches the number of prisoners or
  the bound.
\<close>

theorem trials_fixed_at_100_and_50:
  "DEFAULT_NUM_PRISONERS = 100 \<and> MAX_TRIALS = 50 \<and>
   (\<exists>s'. runSimulation s g = Some (fst (trial_100_50 g), s', snd (trial_100_50 g)) \<and>
         length (parent s') = 100 \<and> length (size_tab s') = 100) \<and>
   (INT_MIN < sz \<and> sz \<le> 100 \<longrightarrow>
      (\<exists>f s' g'. randomizeArray s sz g = Some (f, s', g') \<and>
         length (parent s') = 100 \<and> length (size_tab s') = 100)) \<and>
   (1 \<le> sz \<and> sz \<le> 100 \<longrightarrow>
      (\<exists>s' g'. randomizeArray s sz g =
         Some (if \<exists>k<nat (sz - 1). exceeds_at 50 (set_union_init s 100) (sz - 1) g k
               then NOT_FOUND else FOUND, s', g'))) \<and>
   explained (libc_srandom w) cur (drop (length (trace w)) (result_trace (main argv w)))"
proof -
  have lens: "INT_MIN < sz \<and> sz \<le> 100 \<longrightarrow>
      (\<exists>f s' g'. randomizeArray s sz g = Some (f, s', g') \<and>
         length (parent s') = 100 \<and> length (size_tab s') = 100)"
    using randomizeArray_lengths[of sz s g] by (simp add: DEFAULT_NUM_PRISONERS_def)
  have out: "1 \<le> sz \<and> sz \<le> 100 \<longrightarrow>
      (\<exists>s' g'. randomizeArray s sz g =
         Some (if \<exists>k<nat (sz - 1). exceeds_at 50 (set_union_init s 100) (sz - 1) g k
               then NOT_FOUND else FOUND, s', g'))"
    using randomizeArray_outcome[of sz s g] by blast
  show ?thesis
    using runSimulation_trial[of s g] lens out
      result_explained_new_events[OF main_explained, of w cur argv]
    by (simp add: DEFAULT_NUM_PRISONERS_def MAX_TRIALS_def)
qed

theorem trials_fixed_at_100_and_50_witness:
  "INT_MIN < 3 \<and> (3::int) \<le> 100 \<and>
   map_option (\<lambda>(f, s', g'). (length (parent s'), length (size_tab s')))
     (randomizeArray \<lparr>parent = [], size_tab = []\<rparr> 3 (\<lambda>k. 0)) = Some (100, 100) \<and>
   exceeds_at 50 (set_union_init \<lparr>parent = [], size_tab = []\<rparr> 100) (100 - 1) (\<lambda>k. 0) 49 \<and>
   map_option fst (randomizeArray \<lparr>parent = [], size_tab = []\<rparr> 100 (\<lambda>k. 0)) = Some NOT_FOUND \<and>
   map_option fst (runSimulation \<lparr>parent = [], size_tab = []\<rparr> (\<lambda>k. 0)) =
     Some (fst (trial_100_50 (\<lambda>k. 0))) \<and>
   explained (libc_srandom (sample_world (Seed_word 7))) (\<lambda>k. 0)
     (result_trace (main [''run'', ''1'', ''s''] (sample_world (Seed_word 7))))"
proof -
  let ?s = "\<lparr>parent = [], size_tab = []\<rparr>"
  let ?w = "sample_world (Seed_word 7)"
  have low: "INT_MIN < 3" by (simp add: INT_MIN_def)
  have e: "exceeds_at 50 (set_union_init ?s 100) (100 - 1) (\<lambda>k. 0) 49"
    by code_simp
  have ex: "\<exists>k<nat (100 - 1). exceeds_at 50 (set_union_init ?s 100) (100 - 1) (\<lambda>k. 0) k"
    by (rule exI[of _ 49]) (use e in simp)
  have tr: "trace ?w = []" by (simp add: sample_world_def)
  have a: "map_option (\<lambda>(f, s', g'). (length (parent s'), length (size_tab s')))
     (randomizeArray ?s 3 (\<lambda>k. 0)) = Some (100, 100)"
    using trials_fixed_at_100_and_50[of ?s "\<lambda>k. 0" 3 ?w "\<lambda>k. 0" "[''run'', ''1'', ''s'']"] low
    by auto
  have b: "map_option fst (randomizeArray ?s 100 (\<lambda>k. 0)) = Some NOT_FOUND"
    using trials_fixed_at_100_and_50[of ?s "\<lambda>k. 0" 100 ?w "\<lambda>k. 0" "[''run'', ''1'', ''s'']"] ex
    by auto
  have c: "map_option fst (runSimulation ?s (\<lambda>k. 0)) = Some (fst (trial_100_50 (\<lambda>k. 0)))"
    using trials_fixed_at_100_and_50[of ?s "\<lambda>k. 0" 3 ?w "\<lambda>k. 0" "[''run'', ''1'', ''s'']"]
    by auto
  have d: "explained (libc_srandom ?w) (\<lambda>k. 0) (result_trace (main [''run'', ''1'', ''s''] ?w))"
    using trials_fixed_at_100_and_50[of ?s "\<lambda>k. 0" 3 ?w "\<lambda>k. 0" "[''run'', ''1'', ''s'']"]
    by (simp add: tr)
  show ?thesis using low e a b c d by simp
qed

end
